theory Spec2Isabelle
  imports Complex_Main "HOL-Library.Word"
begin

unbundle bit_operations_syntax

section \<open>Values shared by both directions\<close>

text \<open>
  The repository wraps the native libogg binding (\<^verbatim>\<open>./binding\<close>), which is not part of
  the TypeScript sources. Every value the binding hands to a JavaScript callback
  (return codes, flags, flattened page bytes) is therefore an input of the functions
  below. JavaScript numbers used as return codes, counters and serial numbers are
  modelled as \<^typ>\<open>int\<close>; a number used as a condition is true unless it is zero.

  A method \<^verbatim>\<open>m\<close> of a class \<^verbatim>\<open>C\<close> is named \<open>C_m\<close> where the plain name is taken, a
  method \<^verbatim>\<open>_m\<close> is named \<open>C__m\<close>, and the closures inside a method keep their names.
\<close>

type_synonym byte = "8 word"

definition truthy :: "int \<Rightarrow> bool" where
  "truthy n = (n \<noteq> 0)"

text \<open>
  The \<^verbatim>\<open>Error\<close> objects the sources construct, one constructor per message, and the
  \<^verbatim>\<open>TypeError\<close> of calling a property that is not a function.
\<close>

datatype js_error =
    Ogg_sync_init_failed int
  | Ogg_stream_init_failed int
  | Ogg_sync_write_error int
  | Ogg_sync_pageout_error int
  | Ogg_stream_pagein_error int
  | Ogg_stream_packetout_error int
  | Ogg_stream_packetin_error int
  | TypeError_not_a_function

section \<open>EncoderStream.ts\<close>

text \<open>
  An \<^verbatim>\<open>EncoderStream\<close> object. \<open>es_id\<close> is the identity of the object (allocation
  order inside its \<^verbatim>\<open>Encoder\<close>), \<open>es_page_listeners\<close> counts how often the encoder's
  \<^verbatim>\<open>_onpage\<close> has been attached with \<^verbatim>\<open>on('page', ...)\<close>.
\<close>

record encoder_stream =
  es_id :: nat
  es_serialno :: int
  es_page_listeners :: nat

text \<open>
  \<^verbatim>\<open>x | 0\<close>: ToInt32 of a number, truncation towards zero followed by reduction
  modulo \<open>2^32\<close> into the signed range.
\<close>

definition js_to_int32 :: "real \<Rightarrow> int" where
  "js_to_int32 x =
     (let n = (if x < 0 then \<lceil>x\<rceil> else \<lfloor>x\<rfloor>)
      in (n + 2147483648) mod 4294967296 - 2147483648)"

text \<open>
  \<^verbatim>\<open>(Math.random() * 1000000) | 0\<close>. The input \<open>x\<close> is the double that the
  multiplication \<^verbatim>\<open>Math.random() * 1000000\<close> yields, taken as the real number it
  denotes: the floating-point product itself is computed outside the model.
  \<^verbatim>\<open>Math.random()\<close> is a double in \<open>[0, 1)\<close>, so at most \<open>1 - 2^-53\<close>, and the product
  of that double with 1000000 rounds to \<open>1000000 - 2^-33\<close>: \<open>x\<close> lies in \<open>[0, 1000000)\<close>.
\<close>

definition random_serialno :: "real \<Rightarrow> int" where
  "random_serialno x = js_to_int32 x"

text \<open>
  The constructor. \<open>serialno = None\<close> is \<^verbatim>\<open>undefined\<close>; \<open>x\<close> is the double
  \<^verbatim>\<open>Math.random() * 1000000\<close>, used only then; \<open>r\<close> is the return value of
  \<^verbatim>\<open>binding.ogg_stream_init\<close>; \<open>Inl\<close> is the thrown error.
\<close>

definition new_EncoderStream :: "nat \<Rightarrow> int option \<Rightarrow> real \<Rightarrow> int \<Rightarrow> js_error + encoder_stream" where
  "new_EncoderStream ident serialno x r =
     (let sn = (case serialno of None \<Rightarrow> random_serialno x | Some n \<Rightarrow> n)
      in if r \<noteq> 0 then Inl (Ogg_stream_init_failed r)
         else Inr \<lparr>es_id = ident, es_serialno = sn, es_page_listeners = 0\<rparr>)"

text \<open>
  What is written to an \<^verbatim>\<open>EncoderStream\<close>: an \<^verbatim>\<open>ogg_packet\<close> buffer or a command
  object, with the two command properties the code inspects.
\<close>

record written =
  w_is_buffer :: bool
  w_flush :: bool
  w_pageout :: bool

text \<open>
  What \<^verbatim>\<open>ogg_stream_pageout\<close> and \<^verbatim>\<open>ogg_stream_flush\<close> pass to their callback:
  \<^verbatim>\<open>(rtn, hlen, blen, e_o_s)\<close>, and the bytes of the page left in \<^verbatim>\<open>og\<close>.
\<close>

record page_result =
  pr_rtn :: int
  pr_hlen :: int
  pr_blen :: int
  pr_e_o_s :: int
  pr_bytes :: "byte list"

text \<open>What a method of the stream does that is visible outside it, in order.\<close>

datatype es_action =
    Call_ogg_stream_packetin
  | Call_ogg_stream_pageout
  | Call_ogg_stream_flush
  | Emit_page page_result
  | Write_callback "js_error option"

text \<open>
  \<^verbatim>\<open>_flush(callback)\<close>: call \<^verbatim>\<open>ogg_stream_flush\<close>; on 0 call back, otherwise emit the
  page and flush again. The list holds the results the binding delivers to the
  successive callbacks; when it is used up the last call is still outstanding.
\<close>

fun EncoderStream__flush :: "page_result list \<Rightarrow> es_action list" where
  "EncoderStream__flush [] = [Call_ogg_stream_flush]"
| "EncoderStream__flush (r # rs) =
     Call_ogg_stream_flush #
       (if pr_rtn r = 0 then [Write_callback None]
        else Emit_page r # EncoderStream__flush rs)"

text \<open>\<^verbatim>\<open>_pageout(callback)\<close>, the same loop around \<^verbatim>\<open>ogg_stream_pageout\<close>.\<close>

fun EncoderStream__pageout :: "page_result list \<Rightarrow> es_action list" where
  "EncoderStream__pageout [] = [Call_ogg_stream_pageout]"
| "EncoderStream__pageout (r # rs) =
     Call_ogg_stream_pageout #
       (if pr_rtn r = 0 then [Write_callback None]
        else Emit_page r # EncoderStream__pageout rs)"

text \<open>\<^verbatim>\<open>checkCommand(err)\<close> inside \<^verbatim>\<open>_write\<close>.\<close>

definition checkCommand :: "written \<Rightarrow> js_error option \<Rightarrow> page_result list \<Rightarrow> es_action list" where
  "checkCommand packet err rs =
     (case err of
        Some e \<Rightarrow> [Write_callback (Some e)]
      | None \<Rightarrow>
          if w_flush packet then EncoderStream__flush rs
          else if w_pageout packet then EncoderStream__pageout rs
          else [Write_callback None])"

text \<open>
  \<^verbatim>\<open>_write(packet, encoding, callback)\<close> together with \<^verbatim>\<open>_packetin\<close>; \<open>rtn\<close> is what
  \<^verbatim>\<open>ogg_stream_packetin\<close> returns (used for a buffer only).
\<close>

definition EncoderStream__write :: "written \<Rightarrow> int \<Rightarrow> page_result list \<Rightarrow> es_action list" where
  "EncoderStream__write packet rtn rs =
     (if w_is_buffer packet then
        Call_ogg_stream_packetin #
          checkCommand packet (if rtn = 0 then None else Some (Ogg_stream_packetin_error rtn)) rs
      else checkCommand packet None rs)"

text \<open>
  The public \<^verbatim>\<open>write(packet, encoding, callback)\<close> overrides \<^verbatim>\<open>Writable.write\<close>. Its
  body is one \<^verbatim>\<open>if\<close> whose block holds comments only, and it does not call the
  base class: nothing is handed to \<^verbatim>\<open>_write\<close>, nothing is emitted, no callback runs.
\<close>

definition EncoderStream_write :: "written \<Rightarrow> es_action list" where
  "EncoderStream_write packet = []"

text \<open>\<^verbatim>\<open>pageout(callback)\<close> and \<^verbatim>\<open>flush(callback)\<close>: \<^verbatim>\<open>this.write.call(this, {...}, callback)\<close>.\<close>

definition EncoderStream_pageout :: "es_action list" where
  "EncoderStream_pageout = EncoderStream_write \<lparr>w_is_buffer = False, w_flush = False, w_pageout = True\<rparr>"

definition EncoderStream_flush :: "es_action list" where
  "EncoderStream_flush = EncoderStream_write \<lparr>w_is_buffer = False, w_flush = True, w_pageout = False\<rparr>"

section \<open>Encoder.ts\<close>

text \<open>
  The \<^verbatim>\<open>Encoder\<close>: \<^verbatim>\<open>_streams\<close> (an object used as a dictionary from serial number to
  stream), \<^verbatim>\<open>_needsEnd\<close>, \<^verbatim>\<open>_queue\<close>, the number of pending
  \<^verbatim>\<open>once('_page', output)\<close> listeners, and the number of streams constructed so far.
\<close>

record encoder =
  e_streams :: "int \<rightharpoonup> encoder_stream"
  e_needsEnd :: bool
  e_queue :: "byte list list"
  e_once_page :: nat
  e_next_id :: nat

definition new_Encoder :: encoder where
  "new_Encoder = \<lparr>e_streams = Map.empty, e_needsEnd = False, e_queue = [],
                  e_once_page = 0, e_next_id = 0\<rparr>"

text \<open>What the encoder pushes to its readable side: a buffer, or \<^verbatim>\<open>null\<close>.\<close>

datatype pushed = Push_buffer "byte list" | Push_null

text \<open>The closure \<^verbatim>\<open>output\<close> of \<^verbatim>\<open>_read\<close>.\<close>

definition read_output :: "encoder \<Rightarrow> encoder \<times> pushed list" where
  "read_output e =
     (let buf = concat (e_queue e);
          e1 = e\<lparr>e_queue := []\<rparr>;
          e2 = e1\<lparr>e_needsEnd := (dom (e_streams e1) = {})\<rparr>
      in (e2, [Push_buffer buf]))"

text \<open>
  \<^verbatim>\<open>this.emit('_page')\<close>: every pending \<^verbatim>\<open>once\<close> listener is removed and runs
  \<^verbatim>\<open>output\<close> once.
\<close>

fun run_outputs :: "nat \<Rightarrow> encoder \<Rightarrow> encoder \<times> pushed list" where
  "run_outputs 0 e = (e, [])"
| "run_outputs (Suc n) e =
     (let (e1, ps1) = read_output e; (e2, ps2) = run_outputs n e1 in (e2, ps1 @ ps2))"

definition emit__page :: "encoder \<Rightarrow> encoder \<times> pushed list" where
  "emit__page e = run_outputs (e_once_page e) (e\<lparr>e_once_page := 0\<rparr>)"

text \<open>
  \<^verbatim>\<open>_onpage(stream, page, header_len, body_len, e_o_s)\<close>. Of \<^verbatim>\<open>stream\<close> only
  \<^verbatim>\<open>stream.serialno\<close> is read; the flattened page is \<open>pr_bytes\<close>.
\<close>

definition Encoder__onpage :: "encoder \<Rightarrow> int \<Rightarrow> page_result \<Rightarrow> encoder \<times> pushed list" where
  "Encoder__onpage e serialno pg =
     (let e1 = (if truthy (pr_e_o_s pg) then e\<lparr>e_streams := (e_streams e)(serialno := None)\<rparr> else e);
          e2 = e1\<lparr>e_queue := e_queue e1 @ [pr_bytes pg]\<rparr>
      in emit__page e2)"

text \<open>The encoder inside \<^verbatim>\<open>_onpage\<close> just before \<^verbatim>\<open>this.emit('_page')\<close>.\<close>

definition queued :: "encoder \<Rightarrow> int \<Rightarrow> page_result \<Rightarrow> encoder" where
  "queued e s pg =
     (if truthy (pr_e_o_s pg) then e\<lparr>e_streams := (e_streams e)(s := None)\<rparr> else e)
       \<lparr>e_queue := e_queue e @ [pr_bytes pg]\<rparr>"

text \<open>
  \<^verbatim>\<open>stream(serialno)\<close>. Looking up \<^verbatim>\<open>undefined\<close> in \<^verbatim>\<open>_streams\<close> finds nothing, since
  every key written is a serial number.
\<close>

definition Encoder_stream :: "encoder \<Rightarrow> int option \<Rightarrow> real \<Rightarrow> int \<Rightarrow> js_error + (encoder \<times> encoder_stream)" where
  "Encoder_stream e serialno x r =
     (case (case serialno of None \<Rightarrow> None | Some n \<Rightarrow> e_streams e n) of
        Some s \<Rightarrow> Inr (e, s)
      | None \<Rightarrow>
          (case new_EncoderStream (e_next_id e) serialno x r of
             Inl err \<Rightarrow> Inl err
           | Inr s0 \<Rightarrow>
               let s = s0\<lparr>es_page_listeners := Suc (es_page_listeners s0)\<rparr>
               in Inr (e\<lparr>e_streams := (e_streams e)(es_serialno s \<mapsto> s),
                         e_next_id := Suc (e_next_id e)\<rparr>, s)))"

text \<open>\<^verbatim>\<open>_read(bytes)\<close>.\<close>

definition Encoder__read :: "encoder \<Rightarrow> encoder \<times> pushed list" where
  "Encoder__read e =
     (if e_needsEnd e then (e, [Push_null])
      else if length (e_queue e) \<noteq> 0 then read_output e
      else (e\<lparr>e_once_page := Suc (e_once_page e)\<rparr>, []))"

section \<open>DecoderStream.ts\<close>

text \<open>
  \<^verbatim>\<open>OggPacket.ts\<close>: \<^verbatim>\<open>class OggPacket extends Buffer\<close>, whose constructor calls
  \<^verbatim>\<open>super(binding.sizeof_ogg_packet)\<close>. The \<^verbatim>\<open>Buffer\<close> constructor returns a buffer that
  it allocates itself, and that buffer is what \<^verbatim>\<open>new OggPacket()\<close> yields: a plain
  \<^verbatim>\<open>Buffer\<close> of the right length (the length check of the constructor passes) that can
  take properties such as \<^verbatim>\<open>_callback\<close>, but on which the method \<^verbatim>\<open>replace\<close> and the
  getters of the class (\<^verbatim>\<open>e_o_s\<close> and the others) do not exist. So a packet is its bytes;
  \<^verbatim>\<open>packet.replace()\<close> throws a \<^verbatim>\<open>TypeError\<close> and \<^verbatim>\<open>packet.e_o_s\<close> is \<^verbatim>\<open>undefined\<close>.
  \<^verbatim>\<open>OggPage\<close> is built the same way; the decoder only assigns properties to it.
\<close>

type_synonym ogg_packet = "byte list"

text \<open>
  What \<^verbatim>\<open>ogg_stream_packetout\<close> passes to its callback:
  \<^verbatim>\<open>(rtn, bytes, b_o_s, e_o_s, granulepos, packetno)\<close>.
\<close>

record packetout_result =
  po_rtn :: int
  po_bytes :: int
  po_b_o_s :: int
  po_e_o_s :: int
  po_granulepos :: int
  po_packetno :: int

text \<open>
  A \<^verbatim>\<open>DecoderStream\<close> object: its identity (allocation order inside the \<^verbatim>\<open>Decoder\<close>),
  \<^verbatim>\<open>serialno\<close>, the array \<^verbatim>\<open>packets\<close> and the number of pending
  \<^verbatim>\<open>once('_packet', onpacket)\<close> listeners. An entry of \<^verbatim>\<open>packets\<close> carries its
  \<^verbatim>\<open>_callback\<close>: \<open>None\<close> for \<^verbatim>\<open>null\<close>, otherwise the closure \<^verbatim>\<open>afterPacketRead\<close> of a
  \<^verbatim>\<open>pagein\<close> call, represented by the value of that call's variable \<^verbatim>\<open>packets\<close>.
\<close>

record decoder_stream =
  ds_id :: nat
  ds_serialno :: int
  ds_packets :: "(ogg_packet \<times> int option) list"
  ds_once_packet :: nat

text \<open>The constructor; \<open>r\<close> is the return value of \<^verbatim>\<open>binding.ogg_stream_init\<close>.\<close>

definition new_DecoderStream :: "nat \<Rightarrow> int \<Rightarrow> int \<Rightarrow> js_error + decoder_stream" where
  "new_DecoderStream ident serialno r =
     (if r \<noteq> 0 then Inl (Ogg_stream_init_failed r)
      else Inr \<lparr>ds_id = ident, ds_serialno = serialno, ds_packets = [], ds_once_packet = 0\<rparr>)"

datatype ds_pushed = Pushed_packet ogg_packet | Pushed_undefined

text \<open>
  What a method of the stream does that is visible outside it. The two binding calls
  and \<^verbatim>\<open>process.nextTick\<close> carry the variable \<^verbatim>\<open>packets\<close> of the closure that will be
  called back. An exception that leaves a callback of the stream is the last action of
  that callback.
\<close>

datatype ds_action =
    Call_ogg_stream_pagein int
  | Call_ogg_stream_packetout int
  | Ds_emit_page
  | Ds_push ds_pushed
  | Next_tick int
  | Pagein_callback "js_error option"
  | Ds_throw js_error

text \<open>The closure \<^verbatim>\<open>onpacket\<close> of \<^verbatim>\<open>_read\<close>.\<close>

definition onpacket :: "decoder_stream \<Rightarrow> decoder_stream \<times> ds_action list" where
  "onpacket st =
     (case ds_packets st of
        [] \<Rightarrow> (st, [Ds_push Pushed_undefined])
      | (pkt, cb) # rest \<Rightarrow>
          (st\<lparr>ds_packets := rest\<rparr>,
           Ds_push (Pushed_packet pkt) #
             (case cb of None \<Rightarrow> [] | Some packets \<Rightarrow> [Next_tick packets])))"

text \<open>\<^verbatim>\<open>_read(size)\<close>.\<close>

definition DecoderStream__read :: "decoder_stream \<Rightarrow> decoder_stream \<times> ds_action list" where
  "DecoderStream__read st =
     (if length (ds_packets st) > 0 then onpacket st
      else (st\<lparr>ds_once_packet := Suc (ds_once_packet st)\<rparr>, []))"

text \<open>The closures of \<^verbatim>\<open>pagein(page, packets, callback)\<close>, with \<^verbatim>\<open>packets\<close> as argument.\<close>

definition packetout :: "int \<Rightarrow> ds_action list" where
  "packetout packets =
     (if packets = 0 then [Pagein_callback None] else [Call_ogg_stream_packetout packets])"

definition DecoderStream_afterPagein :: "int \<Rightarrow> int \<Rightarrow> ds_action list" where
  "DecoderStream_afterPagein packets r =
     (if r = 0 then Ds_emit_page # packetout packets
      else [Pagein_callback (Some (Ogg_stream_pagein_error r))])"

text \<open>
  \<^verbatim>\<open>afterPacketout\<close>. When \<^verbatim>\<open>rtn\<close> is 1 the first statement is \<^verbatim>\<open>packet.replace()\<close>, which
  throws: the statements after it (the \<^verbatim>\<open>'bos'\<close> event, storing the callback, queueing the
  packet, the \<^verbatim>\<open>'_packet'\<close> event) are never reached, so nothing ever enters
  \<^verbatim>\<open>this.packets\<close> and \<^verbatim>\<open>'_packet'\<close> is never emitted.
\<close>

definition afterPacketout :: "int \<Rightarrow> packetout_result \<Rightarrow> ds_action list" where
  "afterPacketout packets res =
     (if po_rtn res = 1 then [Ds_throw TypeError_not_a_function]
      else if po_rtn res = - 1 then packetout packets
      else [Pagein_callback (Some (Ogg_stream_packetout_error (po_rtn res)))])"

text \<open>
  \<^verbatim>\<open>afterPacketRead(err)\<close>. The condition \<^verbatim>\<open>packet.e_o_s\<close> is \<^verbatim>\<open>undefined\<close>, so the block
  that emits \<^verbatim>\<open>'eos'\<close> and pushes \<^verbatim>\<open>null\<close> is never entered.
\<close>

definition afterPacketRead :: "js_error option \<Rightarrow> int \<Rightarrow> ds_action list" where
  "afterPacketRead err packets =
     (case err of
        Some e \<Rightarrow> [Pagein_callback (Some e)]
      | None \<Rightarrow> packetout (packets - 1))"

definition DecoderStream_pagein :: "int \<Rightarrow> ds_action list" where
  "DecoderStream_pagein packets = [Call_ogg_stream_pagein packets]"

section \<open>Decoder.ts\<close>

text \<open>
  The \<^verbatim>\<open>Decoder\<close>: the dictionary \<^verbatim>\<open>_streams\<close> from serial number to stream, and the
  number of streams constructed so far.
\<close>

record decoder =
  d_streams :: "int \<rightharpoonup> decoder_stream"
  d_next_id :: nat

text \<open>The constructor; \<open>r\<close> is the return value of \<^verbatim>\<open>binding.ogg_sync_init\<close>.\<close>

definition new_Decoder :: "int \<Rightarrow> js_error + decoder" where
  "new_Decoder r =
     (if r \<noteq> 0 then Inl (Ogg_sync_init_failed r)
      else Inr \<lparr>d_streams = Map.empty, d_next_id = 0\<rparr>)"

text \<open>
  What the decoder does that is visible outside it: its own events, the call
  \<^verbatim>\<open>stream.pagein(page, packets, afterPagein)\<close> on a stream object, what that stream
  object does, the callback of \<^verbatim>\<open>_write\<close>, the next \<^verbatim>\<open>ogg_sync_pageout\<close>, and an
  exception thrown by the decoder's own code, the constructor of a stream.
\<close>

datatype decoder_action =
    Emit_stream nat int
  | Emit_page_decoder int int
  | Forward_page nat int int
  | On_stream nat ds_action
  | Callback_write "js_error option"
  | Call_ogg_sync_pageout
  | Throw js_error

text \<open>
  \<^verbatim>\<open>_stream(serialno)\<close>: the stream for the serial number, the actions, and the decoder
  afterwards; \<open>Inl\<close> when the constructor threw.
\<close>

definition Decoder__stream :: "decoder \<Rightarrow> int \<Rightarrow> int \<Rightarrow> js_error + (decoder \<times> decoder_stream \<times> decoder_action list)" where
  "Decoder__stream d serialno r =
     (case d_streams d serialno of
        Some stream \<Rightarrow> Inr (d, stream, [])
      | None \<Rightarrow>
          (case new_DecoderStream (d_next_id d) serialno r of
             Inl err \<Rightarrow> Inl err
           | Inr stream \<Rightarrow>
               Inr (d\<lparr>d_streams := (d_streams d)(serialno \<mapsto> stream),
                       d_next_id := Suc (d_next_id d)\<rparr>,
                    stream, [Emit_stream (ds_id stream) serialno])))"

text \<open>The closures of \<^verbatim>\<open>_write(chunk, encoding, callback)\<close>.\<close>

definition pageout :: "decoder_action list" where
  "pageout = [Call_ogg_sync_pageout]"

definition afterWrite :: "int \<Rightarrow> decoder_action list" where
  "afterWrite rtn =
     (if rtn = 0 then pageout else [Callback_write (Some (Ogg_sync_write_error rtn))])"

definition Decoder_afterPagein :: "js_error option \<Rightarrow> decoder_action list" where
  "Decoder_afterPagein err =
     (case err of Some e \<Rightarrow> [Callback_write (Some e)] | None \<Rightarrow> pageout)"

text \<open>
  What a stream object does, seen from the decoder: when the stream calls the callback
  it was given by \<^verbatim>\<open>pagein\<close>, the decoder's \<^verbatim>\<open>afterPagein\<close> runs.
\<close>

fun on_stream :: "nat \<Rightarrow> ds_action list \<Rightarrow> decoder_action list" where
  "on_stream i [] = []"
| "on_stream i (Pagein_callback err # as) =
     On_stream i (Pagein_callback err) # Decoder_afterPagein err @ on_stream i as"
| "on_stream i (a # as) = On_stream i a # on_stream i as"

definition afterPageout :: "decoder \<Rightarrow> int \<Rightarrow> int \<Rightarrow> int \<Rightarrow> int \<Rightarrow> decoder \<times> decoder_action list" where
  "afterPageout d rtn serialno packets r =
     (if rtn = 1 then
        (case Decoder__stream d serialno r of
           Inl err \<Rightarrow> (d, [Emit_page_decoder serialno packets, Throw err])
         | Inr (d1, stream, as) \<Rightarrow>
             (d1, Emit_page_decoder serialno packets # as @
                  Forward_page (ds_id stream) serialno packets #
                  on_stream (ds_id stream) (DecoderStream_pagein packets)))
      else if rtn = 0 then (d, [Callback_write None])
      else (d, [Callback_write (Some (Ogg_sync_pageout_error rtn))]))"

text \<open>
  The callbacks the environment (the binding, the consumer of a stream, the event loop)
  invokes, each with the values it passes and, for a closure of a stream, the serial
  number of the stream and the closure's variables.
\<close>

datatype decoder_event =
    Sync_write_done int
  | Sync_pageout_done int int int int
  | Stream_pagein_done int int int
  | Stream_packetout_done int int packetout_result
  | Stream_read int
  | Tick_packet_read int int

text \<open>A method of the stream object registered under a serial number, run in place.\<close>

definition with_stream :: "decoder \<Rightarrow> int \<Rightarrow> (decoder_stream \<Rightarrow> decoder_stream \<times> ds_action list) \<Rightarrow> decoder \<times> decoder_action list" where
  "with_stream d serialno f =
     (case d_streams d serialno of
        None \<Rightarrow> (d, [])
      | Some st \<Rightarrow>
          (let (st1, as) = f st
           in (d\<lparr>d_streams := (d_streams d)(serialno \<mapsto> st1)\<rparr>, on_stream (ds_id st) as)))"

fun decoder_step :: "decoder \<Rightarrow> decoder_event \<Rightarrow> decoder \<times> decoder_action list" where
  "decoder_step d (Sync_write_done rtn) = (d, afterWrite rtn)"
| "decoder_step d (Sync_pageout_done rtn serialno packets r) = afterPageout d rtn serialno packets r"
| "decoder_step d (Stream_pagein_done serialno packets r) =
     with_stream d serialno (\<lambda>st. (st, DecoderStream_afterPagein packets r))"
| "decoder_step d (Stream_packetout_done serialno packets res) =
     with_stream d serialno (\<lambda>st. (st, afterPacketout packets res))"
| "decoder_step d (Stream_read serialno) = with_stream d serialno DecoderStream__read"
| "decoder_step d (Tick_packet_read serialno packets) =
     with_stream d serialno (\<lambda>st. (st, afterPacketRead None packets))"

fun is_throw :: "decoder_action \<Rightarrow> bool" where
  "is_throw (Throw e) = True"
| "is_throw a = False"

text \<open>
  A sequence of callbacks, in order. An exception of the decoder's own code ends it; an
  exception inside a stream is among the actions of that stream, and the sequence goes
  on with whatever callbacks the environment still delivers.
\<close>

fun decoder_run :: "decoder \<Rightarrow> decoder_event list \<Rightarrow> decoder \<times> decoder_action list" where
  "decoder_run d [] = (d, [])"
| "decoder_run d (ev # evs) =
     (let (d1, as1) = decoder_step d ev
      in if list_ex is_throw as1 then (d1, as1)
         else (let (d2, as2) = decoder_run d1 evs in (d2, as1 @ as2)))"

text \<open>
  Reading a trace: the \<^verbatim>\<open>'stream'\<close> events for a serial number, the pages forwarded for
  it, and the callbacks of \<^verbatim>\<open>ogg_sync_pageout\<close> that deliver a page with it.
\<close>

fun is_stream_event :: "int \<Rightarrow> decoder_action \<Rightarrow> bool" where
  "is_stream_event s (Emit_stream i sn) = (sn = s)"
| "is_stream_event s a = False"

fun is_forward :: "int \<Rightarrow> decoder_action \<Rightarrow> bool" where
  "is_forward s (Forward_page i sn p) = (sn = s)"
| "is_forward s a = False"

fun is_page_arrival :: "int \<Rightarrow> decoder_event \<Rightarrow> bool" where
  "is_page_arrival s (Sync_pageout_done rtn sn p r) = (rtn = 1 \<and> sn = s)"
| "is_page_arrival s ev = False"

text \<open>
  Two results of \<^verbatim>\<open>ogg_stream_packetout\<close> used in the examples: the last packet of a
  stream, and a sync warning.
\<close>

definition eos_packetout :: packetout_result where
  "eos_packetout = \<lparr>po_rtn = 1, po_bytes = 1, po_b_o_s = 0, po_e_o_s = 1,
                     po_granulepos = 0, po_packetno = 0\<rparr>"

definition gap_packetout :: packetout_result where
  "gap_packetout = \<lparr>po_rtn = - 1, po_bytes = 0, po_b_o_s = 0, po_e_o_s = 0,
                     po_granulepos = 0, po_packetno = 0\<rparr>"

text \<open>
  What happens to an encoder, from outside: \<^verbatim>\<open>stream(serialno)\<close> is called (with the
  double \<^verbatim>\<open>Math.random() * 1000000\<close> and the return value of \<^verbatim>\<open>ogg_stream_init\<close>, used
  when a stream is constructed), a stream with the given serial number emits \<^verbatim>\<open>'page'\<close> and the
  listener \<^verbatim>\<open>_onpage\<close> runs, or \<^verbatim>\<open>_read\<close> is called. An exception thrown by
  \<^verbatim>\<open>stream\<close> leaves the encoder as it was.
\<close>

datatype encoder_op =
    Op_stream "int option" real int
  | Op_page int page_result
  | Op_read

fun encoder_step :: "encoder \<Rightarrow> encoder_op \<Rightarrow> encoder \<times> pushed list" where
  "encoder_step e (Op_stream serialno x r) =
     (case Encoder_stream e serialno x r of Inl err \<Rightarrow> (e, []) | Inr (e1, s) \<Rightarrow> (e1, []))"
| "encoder_step e (Op_page serialno pg) = Encoder__onpage e serialno pg"
| "encoder_step e Op_read = Encoder__read e"

fun encoder_run :: "encoder \<Rightarrow> encoder_op list \<Rightarrow> encoder \<times> pushed list" where
  "encoder_run e [] = (e, [])"
| "encoder_run e (op # ops) =
     (let (e1, ps1) = encoder_step e op; (e2, ps2) = encoder_run e1 ops in (e2, ps1 @ ps2))"

fun is_buffer_push :: "pushed \<Rightarrow> bool" where
  "is_buffer_push (Push_buffer b) = True"
| "is_buffer_push Push_null = False"

fun pushed_bytes :: "pushed list \<Rightarrow> byte list" where
  "pushed_bytes [] = []"
| "pushed_bytes (Push_buffer b # ps) = b @ pushed_bytes ps"
| "pushed_bytes (Push_null # ps) = pushed_bytes ps"

fun produced_bytes :: "encoder_op list \<Rightarrow> byte list" where
  "produced_bytes [] = []"
| "produced_bytes (Op_page serialno pg # ops) = pr_bytes pg @ produced_bytes ops"
| "produced_bytes (op # ops) = produced_bytes ops"

text \<open>
  The listener \<^verbatim>\<open>_onpage\<close> of the encoder, run for every \<^verbatim>\<open>'page'\<close> event among the
  actions of the stream with the given serial number.
\<close>

fun onpage_actions :: "encoder \<Rightarrow> int \<Rightarrow> es_action list \<Rightarrow> encoder \<times> pushed list" where
  "onpage_actions e serialno [] = (e, [])"
| "onpage_actions e serialno (Emit_page pg # as) =
     (let (e1, ps1) = Encoder__onpage e serialno pg;
          (e2, ps2) = onpage_actions e1 serialno as
      in (e2, ps1 @ ps2))"
| "onpage_actions e serialno (a # as) = onpage_actions e serialno as"

fun is_eos_page :: "es_action \<Rightarrow> bool" where
  "is_eos_page (Emit_page pg) = truthy (pr_e_o_s pg)"
| "is_eos_page a = False"

text \<open>A page result with the end-of-stream flag set, used in the examples.\<close>

definition eos_page :: page_result where
  "eos_page = \<lparr>pr_rtn = 1, pr_hlen = 27, pr_blen = 3, pr_e_o_s = 1, pr_bytes = [1, 2, 3]\<rparr>"

text \<open>A page result without the end-of-stream flag, used in the examples.\<close>

definition plain_page :: page_result where
  "plain_page = \<lparr>pr_rtn = 1, pr_hlen = 27, pr_blen = 3, pr_e_o_s = 0, pr_bytes = [4, 5, 6]\<rparr>"

text \<open>
  Reading a call on the encoder: a \<^verbatim>\<open>'page'\<close> event with the end-of-stream flag from a
  stream with the given serial number, and a call of \<^verbatim>\<open>stream\<close> without a serial number
  that constructs a stream and generates the given serial number.
\<close>

fun is_eos_page_of :: "int \<Rightarrow> encoder_op \<Rightarrow> bool" where
  "is_eos_page_of s (Op_page sn pg) = (sn = s \<and> truthy (pr_e_o_s pg))"
| "is_eos_page_of s op = False"

fun generates :: "int \<Rightarrow> encoder_op \<Rightarrow> bool" where
  "generates s (Op_stream None x r) = (r = 0 \<and> random_serialno x = s)"
| "generates s op = False"

section \<open>The page codec of the specification\<close>

text \<open>
  Modelled from the spec: the page structure of its data model. The sources hold no
  page codec (pages are opaque buffers of the native library); the fields are those of
  section 3 and of the on-wire layout of section 6 of the specification.
\<close>

record page =
  header_type :: byte
  granule_position :: "64 word"
  serial_number :: "32 word"
  page_sequence_number :: "32 word"
  checksum :: "32 word"
  segment_table :: "byte list"
  body :: "byte list"

text \<open>
  Modelled from the spec: little-endian fields of the on-wire layout, which the sources
  do not contain. \<open>le_bytes n w\<close> is the \<open>n\<close> low bytes of \<open>w\<close>, lowest first.
\<close>

fun le_bytes :: "nat \<Rightarrow> 'a::len word \<Rightarrow> byte list" where
  "le_bytes 0 w = []"
| "le_bytes (Suc n) w = ucast w # le_bytes n (drop_bit 8 w)"

fun le_word :: "byte list \<Rightarrow> 'a::len word" where
  "le_word [] = 0"
| "le_word (b # bs) = ucast b OR push_bit 8 (le_word bs)"

text \<open>
  Modelled from the spec: Crc32Ogg, absent from the sources. Polynomial \<open>0x04c11db7\<close>,
  no reflection, no final XOR, a 256-entry table; \<open>crc\<close> starts from accumulator 0.
\<close>

definition crc_poly :: "32 word" where
  "crc_poly = 0x04c11db7"

fun crc_shift :: "nat \<Rightarrow> 32 word \<Rightarrow> 32 word" where
  "crc_shift 0 r = r"
| "crc_shift (Suc k) r =
     crc_shift k (if bit r 31 then push_bit 1 r XOR crc_poly else push_bit 1 r)"

definition crc_table :: "byte \<Rightarrow> 32 word" where
  "crc_table i = crc_shift 8 (push_bit 24 (ucast i))"

definition crc_update :: "32 word \<Rightarrow> byte list \<Rightarrow> 32 word" where
  "crc_update acc bs =
     foldl (\<lambda>a b. push_bit 8 a XOR crc_table (ucast (drop_bit 24 a) XOR b)) acc bs"

definition crc :: "byte list \<Rightarrow> 32 word" where
  "crc bs = crc_update 0 bs"

text \<open>
  Modelled from the spec: the on-wire layout of a page, with the given value in the
  checksum field (the page's own \<open>checksum\<close> field is not used).
\<close>

definition capture_pattern :: "byte list" where
  "capture_pattern = [0x4f, 0x67, 0x67, 0x53]"

definition page_layout :: "page \<Rightarrow> 32 word \<Rightarrow> byte list" where
  "page_layout p c =
     capture_pattern @ [0, header_type p] @
     le_bytes 8 (granule_position p) @
     le_bytes 4 (serial_number p) @
     le_bytes 4 (page_sequence_number p) @
     le_bytes 4 c @
     [of_nat (length (segment_table p))] @
     segment_table p @ body p"

text \<open>
  Modelled from the spec: \<open>PageCodec.serialize\<close>, absent from the sources. It writes the
  header fields, computes the CRC over the full page with checksum 0, and patches the
  checksum field.
\<close>

definition serialize :: "page \<Rightarrow> byte list" where
  "serialize p = page_layout p (crc (page_layout p 0))"

text \<open>
  Modelled from the spec: the results of \<open>PageCodec.parse\<close>. \<open>CorruptPage\<close> carries the
  byte range to skip (start and length).
\<close>

datatype parse_result =
    Parsed page nat
  | NotAPage
  | Truncated
  | CorruptPage nat nat

text \<open>
  Modelled from the spec: \<open>PageCodec.parse\<close>, absent from the sources. The capture
  pattern is required at the offset; the version must be 0; the fields, the segment
  table and the body (as long as the sum of the segment lengths) are read; too few
  bytes give \<open>Truncated\<close>; then the checksum is verified against the CRC of the page
  laid out with checksum 0. A wrong version is reported like a wrong checksum.
\<close>

definition parse :: "byte list \<Rightarrow> nat \<Rightarrow> parse_result" where
  "parse buffer offset =
     (let b = drop offset buffer in
      if take 4 b \<noteq> capture_pattern then NotAPage
      else if length b < 27 then Truncated
      else if b ! 4 \<noteq> 0 then CorruptPage offset 4
      else
        (let n = unat (b ! 26) in
         if length b < 27 + n then Truncated
         else
           (let segs = take n (drop 27 b);
                blen = sum_list (map unat segs)
            in if length b < 27 + n + blen then Truncated
               else
                 (let p = \<lparr>header_type = b ! 5,
                           granule_position = le_word (take 8 (drop 6 b)),
                           serial_number = le_word (take 4 (drop 14 b)),
                           page_sequence_number = le_word (take 4 (drop 18 b)),
                           checksum = le_word (take 4 (drop 22 b)),
                           segment_table = segs,
                           body = take blen (drop (27 + n) b)\<rparr>
                  in if crc (page_layout p 0) = checksum p
                     then Parsed p (27 + n + blen)
                     else CorruptPage offset 4))))"

text \<open>Modelled from the spec: a structurally valid page, in the words of the round-trip property.\<close>

definition structurally_valid :: "page \<Rightarrow> bool" where
  "structurally_valid p \<longleftrightarrow>
     length (segment_table p) \<le> 255 \<and>
     length (body p) = sum_list (map unat (segment_table p))"

text \<open>
  A page used in the examples: beginning of stream, serial number \<open>0x04030201\<close>, one
  segment of one byte, and 0 in the checksum field.
\<close>

definition sample_page :: page where
  "sample_page = \<lparr>header_type = 2, granule_position = 0, serial_number = 67305985,
     page_sequence_number = 0, checksum = 0, segment_table = [1], body = [65]\<rparr>"

section \<open>Results for the encoder\<close>

lemma read_output_simps:
  "e_streams (fst (read_output e)) = e_streams e"
  "e_queue (fst (read_output e)) = []"
  "e_needsEnd (fst (read_output e)) = (dom (e_streams e) = {})"
  "e_once_page (fst (read_output e)) = e_once_page e"
  "e_next_id (fst (read_output e)) = e_next_id e"
  "snd (read_output e) = [Push_buffer (concat (e_queue e))]"
  by (simp_all add: read_output_def Let_def)

lemma run_outputs_streams: "e_streams (fst (run_outputs n e)) = e_streams e"
  by (induction n arbitrary: e) (simp_all add: case_prod_beta read_output_simps)

lemma emit__page_streams: "e_streams (fst (emit__page e)) = e_streams e"
  by (simp add: emit__page_def run_outputs_streams)

lemma onpage_streams:
  "e_streams (fst (Encoder__onpage e s pg)) =
     (if truthy (pr_e_o_s pg) then (e_streams e)(s := None) else e_streams e)"
  by (simp add: Encoder__onpage_def Let_def emit__page_streams)

lemma onpage_actions_streams_other:
  "t \<noteq> s \<Longrightarrow> e_streams (fst (onpage_actions e s as)) t = e_streams e t"
proof (induction as arbitrary: e)
  case Nil
  then show ?case by simp
next
  case (Cons a as)
  then show ?case by (cases a) (simp_all add: case_prod_beta onpage_streams)
qed

lemma onpage_actions_streams_self:
  "e_streams (fst (onpage_actions e s as)) s =
     (if list_ex is_eos_page as then None else e_streams e s)"
proof (induction as arbitrary: e)
  case Nil
  then show ?case by simp
next
  case (Cons a as)
  then show ?case by (cases a) (simp_all add: case_prod_beta onpage_streams)
qed

text \<open>
  C9. \<^verbatim>\<open>Encoder.stream\<close> called a second time with the same defined serial number
  returns the stream object of the first call and leaves the encoder as the first call
  left it, so nothing is attached by the second call; a stream the first call
  constructed carries the handler \<^verbatim>\<open>_onpage\<close> exactly once.
\<close>

theorem Encoder_stream_twice:
  assumes "Encoder_stream e (Some n) rnd1 r1 = Inr (e1, s1)"
  shows "Encoder_stream e1 (Some n) rnd2 r2 = Inr (e1, s1) \<and>
         es_page_listeners s1 =
           (case e_streams e n of None \<Rightarrow> 1 | Some s \<Rightarrow> es_page_listeners s)"
  using assms
  by (auto simp: Encoder_stream_def new_EncoderStream_def Let_def
           split: option.splits if_splits sum.splits)

theorem Encoder_stream_twice_witness:
  "Encoder_stream new_Encoder (Some 7) 0 0 =
     Inr (new_Encoder\<lparr>e_streams := [7 \<mapsto> \<lparr>es_id = 0, es_serialno = 7, es_page_listeners = 1\<rparr>],
                      e_next_id := 1\<rparr>,
          \<lparr>es_id = 0, es_serialno = 7, es_page_listeners = 1\<rparr>) \<and>
   Encoder_stream (new_Encoder\<lparr>e_streams := [7 \<mapsto> \<lparr>es_id = 0, es_serialno = 7, es_page_listeners = 1\<rparr>],
                      e_next_id := 1\<rparr>) (Some 7) 0 0 =
     Inr (new_Encoder\<lparr>e_streams := [7 \<mapsto> \<lparr>es_id = 0, es_serialno = 7, es_page_listeners = 1\<rparr>],
                      e_next_id := 1\<rparr>,
          \<lparr>es_id = 0, es_serialno = 7, es_page_listeners = 1\<rparr>)"
proof -
  have h: "Encoder_stream new_Encoder (Some 7) 0 0 =
     Inr (new_Encoder\<lparr>e_streams := [7 \<mapsto> \<lparr>es_id = 0, es_serialno = 7, es_page_listeners = 1\<rparr>],
                      e_next_id := 1\<rparr>,
          \<lparr>es_id = 0, es_serialno = 7, es_page_listeners = 1\<rparr>)"
    by (simp add: Encoder_stream_def new_EncoderStream_def new_Encoder_def Let_def)
  from Encoder_stream_twice [OF h, of 0 0, THEN conjunct1] h show ?thesis by simp
qed

lemma encoder_run_append:
  "encoder_run e (xs @ ys) =
     (fst (encoder_run (fst (encoder_run e xs)) ys),
      snd (encoder_run e xs) @ snd (encoder_run (fst (encoder_run e xs)) ys))"
  by (induction xs arbitrary: e) (simp_all add: case_prod_beta)

lemma encoder_run_single: "encoder_run e [x] = encoder_step e x"
  by (simp add: case_prod_beta)

lemma run_outputs_Suc:
  "e_queue (fst (run_outputs (Suc n) e)) = [] \<and>
   e_needsEnd (fst (run_outputs (Suc n) e)) = (dom (e_streams e) = {}) \<and>
   list_ex is_buffer_push (snd (run_outputs (Suc n) e))"
proof (induction n arbitrary: e)
  case 0
  then show ?case by (simp add: case_prod_beta read_output_simps)
next
  case (Suc n)
  have "run_outputs (Suc (Suc n)) e =
          (fst (run_outputs (Suc n) (fst (read_output e))),
           snd (read_output e) @ snd (run_outputs (Suc n) (fst (read_output e))))"
    by (simp add: case_prod_beta)
  with Suc [of "fst (read_output e)"] show ?case
    by (simp add: read_output_simps)
qed

lemma run_outputs_no_null: "Push_null \<notin> set (snd (run_outputs n e))"
  by (induction n arbitrary: e) (simp_all add: case_prod_beta read_output_simps)

lemma emit__page_idle: "e_once_page e = 0 \<Longrightarrow> emit__page e = (e, [])"
  by (simp add: emit__page_def)

lemma emit__page_fires:
  assumes "e_once_page e \<noteq> 0"
  shows "e_queue (fst (emit__page e)) = []"
    and "e_needsEnd (fst (emit__page e)) = (dom (e_streams e) = {})"
    and "list_ex is_buffer_push (snd (emit__page e))"
proof -
  from assms obtain n where n: "e_once_page e = Suc n" by (cases "e_once_page e") auto
  show "e_queue (fst (emit__page e)) = []"
    using run_outputs_Suc [of n "e\<lparr>e_once_page := 0\<rparr>"] n
    by (simp add: emit__page_def del: run_outputs.simps)
  show "e_needsEnd (fst (emit__page e)) = (dom (e_streams e) = {})"
    using run_outputs_Suc [of n "e\<lparr>e_once_page := 0\<rparr>"] n
    by (simp add: emit__page_def del: run_outputs.simps)
  show "list_ex is_buffer_push (snd (emit__page e))"
    using run_outputs_Suc [of n "e\<lparr>e_once_page := 0\<rparr>"] n
    by (simp add: emit__page_def del: run_outputs.simps)
qed

lemma emit__page_no_null: "Push_null \<notin> set (snd (emit__page e))"
  by (simp add: emit__page_def run_outputs_no_null)

lemma onpage_queued: "Encoder__onpage e s pg = emit__page (queued e s pg)"
  by (simp add: Encoder__onpage_def queued_def Let_def)

lemma queued_simps:
  "e_once_page (queued e s pg) = e_once_page e"
  "e_needsEnd (queued e s pg) = e_needsEnd e"
  "e_queue (queued e s pg) = e_queue e @ [pr_bytes pg]"
  by (simp_all add: queued_def)

lemma step_buffer_push:
  assumes "list_ex is_buffer_push (snd (encoder_step e op))"
  shows "e_queue (fst (encoder_step e op)) = [] \<and>
         e_needsEnd (fst (encoder_step e op)) = (dom (e_streams (fst (encoder_step e op))) = {})"
proof (cases op)
  case (Op_stream sn rnd r)
  with assms show ?thesis by (simp split: sum.splits prod.splits)
next
  case (Op_page s pg)
  show ?thesis
  proof (cases "e_once_page e = 0")
    case True
    with assms Op_page show ?thesis
      by (simp add: onpage_queued emit__page_idle queued_simps)
  next
    case False
    then have "e_once_page (queued e s pg) \<noteq> 0" by (simp add: queued_simps)
    from emit__page_fires [OF this] emit__page_streams [of "queued e s pg"] Op_page
    show ?thesis by (simp add: onpage_queued)
  qed
next
  case Op_read
  with assms show ?thesis
    by (simp add: Encoder__read_def read_output_simps split: if_splits)
qed

lemma step_no_buffer_push:
  assumes "\<not> list_ex is_buffer_push (snd (encoder_step e op))"
  shows "e_needsEnd (fst (encoder_step e op)) = e_needsEnd e"
proof (cases op)
  case (Op_stream sn rnd r)
  then show ?thesis
    by (auto simp: Encoder_stream_def Let_def split: sum.splits option.splits prod.splits)
next
  case (Op_page s pg)
  show ?thesis
  proof (cases "e_once_page e = 0")
    case True
    with Op_page show ?thesis
      by (simp add: onpage_queued emit__page_idle queued_simps)
  next
    case False
    then have "e_once_page (queued e s pg) \<noteq> 0" by (simp add: queued_simps)
    from emit__page_fires(3) [OF this] assms Op_page
    show ?thesis by (simp add: onpage_queued)
  qed
next
  case Op_read
  with assms show ?thesis
    by (simp add: Encoder__read_def read_output_simps split: if_splits)
qed

lemma step_null_push:
  assumes "Push_null \<in> set (snd (encoder_step e op))"
  shows "op = Op_read \<and> e_needsEnd e"
proof (cases op)
  case (Op_stream sn rnd r)
  with assms show ?thesis by (simp split: sum.splits prod.splits)
next
  case (Op_page s pg)
  with assms emit__page_no_null show ?thesis
    by (simp add: onpage_queued)
next
  case Op_read
  with assms show ?thesis
    by (simp add: Encoder__read_def read_output_simps split: if_splits)
qed

lemma needsEnd_history:
  "e_needsEnd (fst (encoder_run new_Encoder pre)) \<Longrightarrow>
   \<exists>pre1 op1 mid. pre = pre1 @ op1 # mid \<and>
     list_ex is_buffer_push (snd (encoder_step (fst (encoder_run new_Encoder pre1)) op1)) \<and>
     e_streams (fst (encoder_run new_Encoder (pre1 @ [op1]))) = Map.empty \<and>
     e_queue (fst (encoder_run new_Encoder (pre1 @ [op1]))) = [] \<and>
     \<not> list_ex is_buffer_push (snd (encoder_run (fst (encoder_run new_Encoder (pre1 @ [op1]))) mid))"
proof (induction pre rule: rev_induct)
  case Nil
  then show ?case by (simp add: new_Encoder_def)
next
  case (snoc x xs)
  let ?e0 = "fst (encoder_run new_Encoder xs)"
  have st: "fst (encoder_run new_Encoder (xs @ [x])) = fst (encoder_step ?e0 x)"
    by (simp add: encoder_run_append encoder_run_single)
  show ?case
  proof (cases "list_ex is_buffer_push (snd (encoder_step ?e0 x))")
    case True
    from step_buffer_push [OF True] snoc.prems st
    have "e_queue (fst (encoder_run new_Encoder (xs @ [x]))) = []"
      and "e_streams (fst (encoder_run new_Encoder (xs @ [x]))) = Map.empty"
      by simp_all
    with True have "xs @ [x] = xs @ x # [] \<and>
        list_ex is_buffer_push (snd (encoder_step (fst (encoder_run new_Encoder xs)) x)) \<and>
        e_streams (fst (encoder_run new_Encoder (xs @ [x]))) = Map.empty \<and>
        e_queue (fst (encoder_run new_Encoder (xs @ [x]))) = [] \<and>
        \<not> list_ex is_buffer_push (snd (encoder_run (fst (encoder_run new_Encoder (xs @ [x]))) []))"
      by simp
    then show ?thesis by blast
  next
    case False
    from step_no_buffer_push [OF False] snoc.prems st have "e_needsEnd ?e0" by simp
    from snoc.IH [OF this] obtain pre1 op1 mid where
      d: "xs = pre1 @ op1 # mid" and
      p: "list_ex is_buffer_push (snd (encoder_step (fst (encoder_run new_Encoder pre1)) op1))" and
      s: "e_streams (fst (encoder_run new_Encoder (pre1 @ [op1]))) = Map.empty" and
      q: "e_queue (fst (encoder_run new_Encoder (pre1 @ [op1]))) = []" and
      n: "\<not> list_ex is_buffer_push (snd (encoder_run (fst (encoder_run new_Encoder (pre1 @ [op1]))) mid))"
      by blast
    let ?e1 = "fst (encoder_run new_Encoder (pre1 @ [op1]))"
    have "xs = (pre1 @ [op1]) @ mid" using d by simp
    then have "?e0 = fst (encoder_run ?e1 mid)"
      by (simp only: encoder_run_append fst_conv)
    with False n have "\<not> list_ex is_buffer_push (snd (encoder_run ?e1 (mid @ [x])))"
      by (simp add: encoder_run_append encoder_run_single)
    moreover have "xs @ [x] = pre1 @ op1 # (mid @ [x])" using d by simp
    ultimately show ?thesis using p s q by blast
  qed
qed

lemma pushed_bytes_append: "pushed_bytes (ps @ qs) = pushed_bytes ps @ pushed_bytes qs"
  by (induction ps rule: pushed_bytes.induct) simp_all

lemma run_outputs_bytes:
  "pushed_bytes (snd (run_outputs n e)) @ concat (e_queue (fst (run_outputs n e))) = concat (e_queue e)"
  by (induction n arbitrary: e)
     (simp_all add: case_prod_beta read_output_simps pushed_bytes_append)

lemma step_bytes:
  "pushed_bytes (snd (encoder_step e op)) @ concat (e_queue (fst (encoder_step e op))) =
     concat (e_queue e) @ produced_bytes [op]"
proof (cases op)
  case (Op_stream sn rnd r)
  then show ?thesis
    by (auto simp: Encoder_stream_def Let_def split: sum.splits option.splits)
next
  case (Op_page s pg)
  then show ?thesis
    by (simp add: onpage_queued emit__page_def run_outputs_bytes queued_simps)
next
  case Op_read
  then show ?thesis
    by (simp add: Encoder__read_def read_output_simps)
qed

lemma produced_bytes_Cons: "produced_bytes (op # ops) = produced_bytes [op] @ produced_bytes ops"
  by (cases op) simp_all

lemma run_bytes:
  "pushed_bytes (snd (encoder_run e ops)) @ concat (e_queue (fst (encoder_run e ops))) =
     concat (e_queue e) @ produced_bytes ops"
proof (induction ops arbitrary: e)
  case Nil
  then show ?case by simp
next
  case (Cons op ops)
  have "pushed_bytes (snd (encoder_run e (op # ops))) @ concat (e_queue (fst (encoder_run e (op # ops))))
      = pushed_bytes (snd (encoder_step e op)) @
        (pushed_bytes (snd (encoder_run (fst (encoder_step e op)) ops)) @
         concat (e_queue (fst (encoder_run (fst (encoder_step e op)) ops))))"
    by (simp add: case_prod_beta pushed_bytes_append)
  also have "\<dots> = pushed_bytes (snd (encoder_step e op)) @
        (concat (e_queue (fst (encoder_step e op))) @ produced_bytes ops)"
    by (simp only: Cons.IH)
  also have "\<dots> = (concat (e_queue e) @ produced_bytes [op]) @ produced_bytes ops"
    using step_bytes [of e op] by simp
  finally show ?case using produced_bytes_Cons [of op ops] by simp
qed


lemma run_outputs_pushes:
  "snd (run_outputs (Suc n) e) = Push_buffer (concat (e_queue e)) # replicate n (Push_buffer [])"
proof (induction n arbitrary: e)
  case 0
  then show ?case by (simp add: case_prod_beta read_output_simps)
next
  case (Suc n)
  have "snd (run_outputs (Suc (Suc n)) e) =
          snd (read_output e) @ snd (run_outputs (Suc n) (fst (read_output e)))"
    by (simp add: case_prod_beta)
  with Suc [of "fst (read_output e)"] show ?case
    by (simp add: read_output_simps)
qed

lemma onpage_pushes:
  "snd (Encoder__onpage e s pg) =
     (case e_once_page e of
        0 \<Rightarrow> []
      | Suc n \<Rightarrow> Push_buffer (concat (e_queue e) @ pr_bytes pg) # replicate n (Push_buffer []))"
proof (cases "e_once_page e")
  case 0
  then show ?thesis by (simp add: onpage_queued emit__page_idle queued_simps)
next
  case (Suc n)
  then show ?thesis
    using run_outputs_pushes [of n "(queued e s pg)\<lparr>e_once_page := 0\<rparr>"]
    by (simp add: onpage_queued emit__page_def queued_simps del: run_outputs.simps)
qed

lemma run_outputs_once: "e_once_page (fst (run_outputs n e)) = e_once_page e"
  by (induction n arbitrary: e) (simp_all add: case_prod_beta read_output_simps)

lemma onpage_after:
  "e_once_page (fst (Encoder__onpage e s pg)) = 0"
  "e_queue (fst (Encoder__onpage e s pg)) =
     (if e_once_page e = 0 then e_queue e @ [pr_bytes pg] else [])"
proof -
  show "e_once_page (fst (Encoder__onpage e s pg)) = 0"
    by (simp add: onpage_queued emit__page_def run_outputs_once)
  show "e_queue (fst (Encoder__onpage e s pg)) =
     (if e_once_page e = 0 then e_queue e @ [pr_bytes pg] else [])"
  proof (cases "e_once_page e = 0")
    case True
    then show ?thesis by (simp add: onpage_queued emit__page_idle queued_simps)
  next
    case False
    then have "e_once_page (queued e s pg) \<noteq> 0" by (simp add: queued_simps)
    from emit__page_fires(1) [OF this] False show ?thesis by (simp add: onpage_queued)
  qed
qed

text \<open>
  C10, as amended. Along any sequence of calls on a new encoder: the bytes pushed so far
  followed by the bytes still queued are the bytes of the pages produced, in the order
  of their production; \<^verbatim>\<open>output\<close> pushes the concatenation of the whole queue and leaves
  it empty; a page event pushes the whole queue when a read is waiting, leaving the queue
  empty and no read waiting, and pushes nothing otherwise; and \<^verbatim>\<open>null\<close> is pushed only by \<^verbatim>\<open>_read\<close>, and only when an earlier call pushed
  a buffer and left the queue empty and no stream registered, with no buffer pushed
  since. Streams opened and pages queued after that call are not waited for.
\<close>

theorem end_only_after_drain:
  assumes "encoder_run new_Encoder ops = (e, ps)"
  shows "pushed_bytes ps @ concat (e_queue e) = produced_bytes ops \<and>
         snd (read_output e) = [Push_buffer (concat (e_queue e))] \<and>
         e_queue (fst (read_output e)) = [] \<and>
         snd (Encoder__onpage e s pg) =
           (case e_once_page e of
              0 \<Rightarrow> []
            | Suc n \<Rightarrow> Push_buffer (concat (e_queue e) @ pr_bytes pg) #
                        replicate n (Push_buffer [])) \<and>
         e_queue (fst (Encoder__onpage e s pg)) =
           (if e_once_page e = 0 then e_queue e @ [pr_bytes pg] else []) \<and>
         e_once_page (fst (Encoder__onpage e s pg)) = 0 \<and>
         (Push_null \<in> set (snd (encoder_step e op)) \<longrightarrow>
            op = Op_read \<and>
            (\<exists>pre1 op1 mid. ops = pre1 @ op1 # mid \<and>
               list_ex is_buffer_push (snd (encoder_step (fst (encoder_run new_Encoder pre1)) op1)) \<and>
               e_streams (fst (encoder_run new_Encoder (pre1 @ [op1]))) = Map.empty \<and>
               e_queue (fst (encoder_run new_Encoder (pre1 @ [op1]))) = [] \<and>
               \<not> list_ex is_buffer_push
                    (snd (encoder_run (fst (encoder_run new_Encoder (pre1 @ [op1]))) mid))))"
proof -
  have e: "e = fst (encoder_run new_Encoder ops)" and ps: "ps = snd (encoder_run new_Encoder ops)"
    using assms by simp_all
  have "pushed_bytes ps @ concat (e_queue e) = produced_bytes ops"
    using run_bytes [of new_Encoder ops] by (simp add: e ps new_Encoder_def)
  moreover have "Push_null \<in> set (snd (encoder_step e op)) \<longrightarrow>
            op = Op_read \<and>
            (\<exists>pre1 op1 mid. ops = pre1 @ op1 # mid \<and>
               list_ex is_buffer_push (snd (encoder_step (fst (encoder_run new_Encoder pre1)) op1)) \<and>
               e_streams (fst (encoder_run new_Encoder (pre1 @ [op1]))) = Map.empty \<and>
               e_queue (fst (encoder_run new_Encoder (pre1 @ [op1]))) = [] \<and>
               \<not> list_ex is_buffer_push
                    (snd (encoder_run (fst (encoder_run new_Encoder (pre1 @ [op1]))) mid)))"
  proof
    assume "Push_null \<in> set (snd (encoder_step e op))"
    from step_null_push [OF this] have "op = Op_read" and "e_needsEnd e" by simp_all
    with needsEnd_history [of ops] e show "op = Op_read \<and>
            (\<exists>pre1 op1 mid. ops = pre1 @ op1 # mid \<and>
               list_ex is_buffer_push (snd (encoder_step (fst (encoder_run new_Encoder pre1)) op1)) \<and>
               e_streams (fst (encoder_run new_Encoder (pre1 @ [op1]))) = Map.empty \<and>
               e_queue (fst (encoder_run new_Encoder (pre1 @ [op1]))) = [] \<and>
               \<not> list_ex is_buffer_push
                    (snd (encoder_run (fst (encoder_run new_Encoder (pre1 @ [op1]))) mid)))"
      by simp
  qed
  moreover note onpage_pushes [of e s pg] onpage_after [of e s pg]
  ultimately show ?thesis by (simp only: read_output_simps)
qed

lemmas encoder_defs =
  new_Encoder_def Encoder_stream_def new_EncoderStream_def Let_def Encoder__onpage_def
  emit__page_def eos_page_def plain_page_def truthy_def Encoder__read_def read_output_def
  random_serialno_def js_to_int32_def

lemma example_run:
  "encoder_run new_Encoder [Op_stream (Some 7) 0 0, Op_page 7 eos_page, Op_read] =
     (\<lparr>e_streams = Map.empty, e_needsEnd = True, e_queue = [], e_once_page = 0, e_next_id = 1\<rparr>,
      [Push_buffer [1, 2, 3]])"
  by (simp add: encoder_defs)

theorem end_only_after_drain_witness:
  "encoder_run new_Encoder [Op_stream (Some 7) 0 0, Op_page 7 eos_page, Op_read] =
     (\<lparr>e_streams = Map.empty, e_needsEnd = True, e_queue = [], e_once_page = 0, e_next_id = 1\<rparr>,
      [Push_buffer [1, 2, 3]]) \<and>
   Push_null \<in> set (snd (encoder_step
     \<lparr>e_streams = Map.empty, e_needsEnd = True, e_queue = [], e_once_page = 0, e_next_id = 1\<rparr> Op_read)) \<and>
   (\<exists>pre1 op1 mid. [Op_stream (Some 7) 0 0, Op_page 7 eos_page, Op_read] = pre1 @ op1 # mid \<and>
      list_ex is_buffer_push (snd (encoder_step (fst (encoder_run new_Encoder pre1)) op1)) \<and>
      e_streams (fst (encoder_run new_Encoder (pre1 @ [op1]))) = Map.empty \<and>
      e_queue (fst (encoder_run new_Encoder (pre1 @ [op1]))) = [] \<and>
      \<not> list_ex is_buffer_push
           (snd (encoder_run (fst (encoder_run new_Encoder (pre1 @ [op1]))) mid)))"
proof -
  have n: "Push_null \<in> set (snd (encoder_step
     \<lparr>e_streams = Map.empty, e_needsEnd = True, e_queue = [], e_once_page = 0, e_next_id = 1\<rparr> Op_read))"
    by (simp add: Encoder__read_def)
  from end_only_after_drain [OF example_run, of 7 eos_page Op_read] n example_run
  show ?thesis by blast
qed

text \<open>
  C10 as stated fails: stream 7 is opened and produces its end-of-stream page, a read
  pushes that page; then stream 8 is opened and produces a page; the next read pushes
  \<^verbatim>\<open>null\<close> although stream 8 is registered and its page is in the queue.
\<close>

theorem end_with_open_stream_counterexample:
  "encoder_run new_Encoder
     [Op_stream (Some 7) 0 0, Op_page 7 eos_page, Op_read,
      Op_stream (Some 8) 0 0, Op_page 8 plain_page, Op_read] =
     (\<lparr>e_streams = [8 \<mapsto> \<lparr>es_id = 1, es_serialno = 8, es_page_listeners = 1\<rparr>],
       e_needsEnd = True, e_queue = [[4, 5, 6]], e_once_page = 0, e_next_id = 2\<rparr>,
      [Push_buffer [1, 2, 3], Push_null])"
  by (simp add: encoder_defs)

lemma step_streams:
  "e_streams (fst (encoder_step e op)) =
     (case op of
        Op_stream serialno x r \<Rightarrow>
          (case Encoder_stream e serialno x r of
             Inl err \<Rightarrow> e_streams e
           | Inr (e1, st) \<Rightarrow> e_streams e1)
      | Op_page sn pg \<Rightarrow>
          (if truthy (pr_e_o_s pg) then (e_streams e)(sn := None) else e_streams e)
      | Op_read \<Rightarrow> e_streams e)"
  by (cases op)
     (simp_all add: onpage_streams Encoder__read_def read_output_simps
        split: sum.splits prod.splits)

lemma stream_keeps_keys:
  assumes "Encoder_stream e serialno x r = Inr (e1, st)" and "s \<in> dom (e_streams e)"
  shows "s \<in> dom (e_streams e1)"
  using assms
  by (auto simp: Encoder_stream_def new_EncoderStream_def Let_def
           split: option.splits if_splits)

lemma stream_replaces:
  assumes "Encoder_stream e serialno x r = Inr (e1, st1)"
    and "e_streams e s = Some st" and "e_streams e1 s \<noteq> Some st"
  shows "serialno = None \<and> r = 0 \<and> random_serialno x = s"
  using assms
  by (auto simp: Encoder_stream_def new_EncoderStream_def Let_def
           split: option.splits if_splits)

text \<open>
  C8, as amended. \<^verbatim>\<open>_onpage\<close> deletes the entry under the serial number of the stream
  that emitted the page exactly when the page carries the end-of-stream flag, so after
  any actions of a stream the serial number is still registered exactly when it was
  before and none of the pages emitted carried the flag, and the other entries are as
  they were. Over all calls on the encoder, a registered serial number leaves the table
  exactly at such a page event; the stream registered under it is otherwise exchanged
  only by a call of \<^verbatim>\<open>stream\<close> without a serial number that generates this number, and
  then it is.
\<close>

theorem entry_deleted_at_eos_page:
  "e_streams (fst (Encoder__onpage e s pg)) =
     (if truthy (pr_e_o_s pg) then (e_streams e)(s := None) else e_streams e) \<and>
   (s \<in> dom (e_streams (fst (onpage_actions e s as))) \<longleftrightarrow>
      s \<in> dom (e_streams e) \<and> \<not> list_ex is_eos_page as) \<and>
   (\<forall>t. t \<noteq> s \<longrightarrow>
      e_streams (fst (onpage_actions e s as)) t = e_streams e t) \<and>
   (s \<in> dom (e_streams e) \<longrightarrow>
      (s \<notin> dom (e_streams (fst (encoder_step e op))) \<longleftrightarrow> is_eos_page_of s op)) \<and>
   (e_streams e s = Some st \<longrightarrow> e_streams (fst (encoder_step e op)) s \<noteq> Some st \<longrightarrow>
      is_eos_page_of s op \<or> generates s op) \<and>
   (generates s op \<longrightarrow>
      e_streams (fst (encoder_step e op)) s =
        Some \<lparr>es_id = e_next_id e, es_serialno = s, es_page_listeners = 1\<rparr>)"
proof -
  have 1: "e_streams (fst (Encoder__onpage e s pg)) =
     (if truthy (pr_e_o_s pg) then (e_streams e)(s := None) else e_streams e)"
    by (rule onpage_streams)
  have 2: "s \<in> dom (e_streams (fst (onpage_actions e s as))) \<longleftrightarrow>
      s \<in> dom (e_streams e) \<and> \<not> list_ex is_eos_page as"
    by (auto simp: onpage_actions_streams_self split: if_splits)
  have 3: "\<forall>t. t \<noteq> s \<longrightarrow>
      e_streams (fst (onpage_actions e s as)) t = e_streams e t"
    by (simp add: onpage_actions_streams_other)
  have 4: "s \<in> dom (e_streams e) \<longrightarrow>
      (s \<notin> dom (e_streams (fst (encoder_step e op))) \<longleftrightarrow> is_eos_page_of s op)"
  proof (cases op)
    case (Op_stream serialno x r)
    then show ?thesis unfolding step_streams
      using stream_keeps_keys [of e serialno x r _ _ s]
      by (auto split: sum.splits prod.splits)
  next
    case (Op_page sn pg')
    then show ?thesis unfolding step_streams by auto
  next
    case Op_read
    then show ?thesis unfolding step_streams by auto
  qed
  have 5: "e_streams e s = Some st \<longrightarrow> e_streams (fst (encoder_step e op)) s \<noteq> Some st \<longrightarrow>
      is_eos_page_of s op \<or> generates s op"
  proof (cases op)
    case (Op_stream serialno x r)
    then show ?thesis unfolding step_streams
      using stream_replaces [of e serialno x r _ _ s st]
      by (auto split: sum.splits prod.splits)
  next
    case (Op_page sn pg')
    then show ?thesis unfolding step_streams by (auto split: if_splits)
  next
    case Op_read
    then show ?thesis unfolding step_streams by auto
  qed
  have 6: "generates s op \<longrightarrow>
      e_streams (fst (encoder_step e op)) s =
        Some \<lparr>es_id = e_next_id e, es_serialno = s, es_page_listeners = 1\<rparr>"
  proof (cases op)
    case (Op_stream serialno x r)
    then show ?thesis unfolding step_streams
      by (cases serialno)
         (auto simp: Encoder_stream_def new_EncoderStream_def Let_def)
  next
    case (Op_page sn pg')
    then show ?thesis unfolding step_streams by simp
  next
    case Op_read
    then show ?thesis unfolding step_streams by simp
  qed
  from 1 2 3 4 5 6 show ?thesis by blast
qed

theorem entry_deleted_at_eos_page_witness:
  "(7::int) \<in> dom (e_streams
     (new_Encoder\<lparr>e_streams := [7 \<mapsto> \<lparr>es_id = 0, es_serialno = 7, es_page_listeners = 1\<rparr>,
                                  8 \<mapsto> \<lparr>es_id = 1, es_serialno = 8, es_page_listeners = 1\<rparr>],
                   e_next_id := 2\<rparr>)) \<and>
   is_eos_page_of 7 (Op_page 7 eos_page) \<and>
   7 \<notin> dom (e_streams (fst (encoder_step
     (new_Encoder\<lparr>e_streams := [7 \<mapsto> \<lparr>es_id = 0, es_serialno = 7, es_page_listeners = 1\<rparr>,
                                  8 \<mapsto> \<lparr>es_id = 1, es_serialno = 8, es_page_listeners = 1\<rparr>],
                   e_next_id := 2\<rparr>)
     (Op_page 7 eos_page)))) \<and>
   (8::int) \<noteq> 7 \<and>
   e_streams (fst (onpage_actions
     (new_Encoder\<lparr>e_streams := [7 \<mapsto> \<lparr>es_id = 0, es_serialno = 7, es_page_listeners = 1\<rparr>,
                                  8 \<mapsto> \<lparr>es_id = 1, es_serialno = 8, es_page_listeners = 1\<rparr>],
                   e_next_id := 2\<rparr>) 7
     (EncoderStream__write \<lparr>w_is_buffer = False, w_flush = True, w_pageout = False\<rparr> 0
        [eos_page, eos_page\<lparr>pr_rtn := 0\<rparr>]))) 8 =
     Some \<lparr>es_id = 1, es_serialno = 8, es_page_listeners = 1\<rparr> \<and>
   generates 7 (Op_stream None 7 0) \<and>
   e_streams (fst (encoder_step
     (new_Encoder\<lparr>e_streams := [7 \<mapsto> \<lparr>es_id = 0, es_serialno = 7, es_page_listeners = 1\<rparr>,
                                  8 \<mapsto> \<lparr>es_id = 1, es_serialno = 8, es_page_listeners = 1\<rparr>],
                   e_next_id := 2\<rparr>)
     (Op_stream None 7 0))) 7 =
     Some \<lparr>es_id = 2, es_serialno = 7, es_page_listeners = 1\<rparr>"
proof -
  let ?e = "(new_Encoder\<lparr>e_streams := [7 \<mapsto> \<lparr>es_id = 0, es_serialno = 7, es_page_listeners = 1\<rparr>,
                                  8 \<mapsto> \<lparr>es_id = 1, es_serialno = 8, es_page_listeners = 1\<rparr>],
                   e_next_id := 2\<rparr>)"
  have d: "(7::int) \<in> dom (e_streams ?e)"
    by (simp add: new_Encoder_def)
  have a: "is_eos_page_of 7 (Op_page 7 eos_page)"
    by (simp add: eos_page_def truthy_def)
  have b: "generates 7 (Op_stream None 7 0)"
    by (simp add: random_serialno_def js_to_int32_def)
  have ne: "(8::int) \<noteq> 7" by simp
  have e8: "e_streams ?e 8 = Some \<lparr>es_id = 1, es_serialno = 8, es_page_listeners = 1\<rparr>"
    by (simp add: new_Encoder_def)
  have n: "e_next_id ?e = 2"
    by (simp add: new_Encoder_def)
  note t = entry_deleted_at_eos_page
    [of ?e 7 eos_page
        "EncoderStream__write \<lparr>w_is_buffer = False, w_flush = True, w_pageout = False\<rparr> 0
           [eos_page, eos_page\<lparr>pr_rtn := 0\<rparr>]"]
  note t4 = t [of "Op_page 7 eos_page", THEN conjunct2, THEN conjunct2, THEN conjunct2,
               THEN conjunct1, THEN mp, OF d, THEN iffD2, OF a]
  note t3 = t [of "Op_page 7 eos_page", THEN conjunct2, THEN conjunct2, THEN conjunct1,
               THEN spec, of 8, THEN mp, OF ne]
  note t6 = t [of "Op_stream None 7 0", THEN conjunct2, THEN conjunct2, THEN conjunct2,
               THEN conjunct2, THEN conjunct2, THEN mp, OF b]
  from t3 e8 have 2: "e_streams (fst (onpage_actions
     ?e 7
     (EncoderStream__write \<lparr>w_is_buffer = False, w_flush = True, w_pageout = False\<rparr> 0
        [eos_page, eos_page\<lparr>pr_rtn := 0\<rparr>]))) 8 =
     Some \<lparr>es_id = 1, es_serialno = 8, es_page_listeners = 1\<rparr>"
    by (simp only:)
  from t6 n have 3: "e_streams (fst (encoder_step ?e (Op_stream None 7 0))) 7 =
     Some \<lparr>es_id = 2, es_serialno = 7, es_page_listeners = 1\<rparr>"
    by (simp only:)
  from d a t4 ne 2 b 3 show ?thesis by blast
qed

text \<open>
  C8 as stated fails: stream 500000 is opened; a call of \<^verbatim>\<open>stream\<close> without a serial
  number generates 500000 again, and the first stream is out of the table although it
  has produced no page; when the first stream then produces its end-of-stream page,
  the entry of the second stream, which has produced no page, is deleted.
\<close>

theorem muxer_retired_without_eos_counterexample:
  "encoder_run new_Encoder [Op_stream (Some 500000) 0 0, Op_stream None 500000 0] =
     (\<lparr>e_streams = [500000 \<mapsto> \<lparr>es_id = 1, es_serialno = 500000, es_page_listeners = 1\<rparr>],
       e_needsEnd = False, e_queue = [], e_once_page = 0, e_next_id = 2\<rparr>, []) \<and>
   encoder_run new_Encoder
       [Op_stream (Some 500000) 0 0, Op_stream None 500000 0, Op_page 500000 eos_page] =
     (\<lparr>e_streams = Map.empty, e_needsEnd = False, e_queue = [[1, 2, 3]], e_once_page = 0,
       e_next_id = 2\<rparr>, [])"
  by (simp add: encoder_defs)

text \<open>
  C4, as amended. Without a serial number, \<^verbatim>\<open>stream\<close> generates the integer part of the
  double \<^verbatim>\<open>Math.random() * 1000000\<close>, a number from 0 to 999999, and registers the new
  stream under it without looking at the serial numbers in use: whatever was registered
  under that number is replaced.
\<close>

theorem random_serial_unchecked:
  assumes "0 \<le> x" and "x < 1000000"
  shows "random_serialno x = \<lfloor>x\<rfloor> \<and>
         0 \<le> random_serialno x \<and> random_serialno x < 1000000 \<and>
         Encoder_stream e None x 0 =
           Inr (e\<lparr>e_streams := (e_streams e)(random_serialno x \<mapsto>
                      \<lparr>es_id = e_next_id e, es_serialno = random_serialno x,
                       es_page_listeners = 1\<rparr>),
                   e_next_id := Suc (e_next_id e)\<rparr>,
                \<lparr>es_id = e_next_id e, es_serialno = random_serialno x, es_page_listeners = 1\<rparr>)"
proof -
  from assms have lo: "0 \<le> \<lfloor>x\<rfloor>" by simp
  from assms have hi: "\<lfloor>x\<rfloor> < 1000000" by linarith
  from assms have "\<not> x < 0" by simp
  with lo hi have r: "random_serialno x = \<lfloor>x\<rfloor>"
    by (simp add: random_serialno_def js_to_int32_def Let_def)
  with lo hi show ?thesis
    by (simp add: Encoder_stream_def new_EncoderStream_def Let_def)
qed

theorem random_serial_unchecked_witness:
  "(0::real) \<le> 500000 \<and> (500000::real) < 1000000 \<and> random_serialno 500000 = 500000 \<and>
   Encoder_stream new_Encoder None 500000 0 =
     Inr (new_Encoder\<lparr>e_streams := [500000 \<mapsto> \<lparr>es_id = 0, es_serialno = 500000, es_page_listeners = 1\<rparr>],
                      e_next_id := 1\<rparr>,
          \<lparr>es_id = 0, es_serialno = 500000, es_page_listeners = 1\<rparr>)"
  using random_serial_unchecked [of 500000 new_Encoder]
  by (simp add: new_Encoder_def)

text \<open>
  C4 as stated fails: with stream 500000 open and \<^verbatim>\<open>Math.random()\<close> returning 0.5, the
  product is 500000, the serial number 500000 is generated again and assigned; the
  table then holds the new stream in place of the old one.
\<close>

theorem random_serial_collision_counterexample:
  "e_streams (new_Encoder\<lparr>e_streams := [500000 \<mapsto> \<lparr>es_id = 0, es_serialno = 500000, es_page_listeners = 1\<rparr>],
                          e_next_id := 1\<rparr>) 500000 =
     Some \<lparr>es_id = 0, es_serialno = 500000, es_page_listeners = 1\<rparr> \<and>
   Encoder_stream (new_Encoder\<lparr>e_streams := [500000 \<mapsto> \<lparr>es_id = 0, es_serialno = 500000, es_page_listeners = 1\<rparr>],
                          e_next_id := 1\<rparr>) None 500000 0 =
     Inr (new_Encoder\<lparr>e_streams := [500000 \<mapsto> \<lparr>es_id = 1, es_serialno = 500000, es_page_listeners = 1\<rparr>],
                      e_next_id := 2\<rparr>,
          \<lparr>es_id = 1, es_serialno = 500000, es_page_listeners = 1\<rparr>)"
  by (simp add: new_Encoder_def Encoder_stream_def new_EncoderStream_def Let_def
        random_serialno_def js_to_int32_def)

text \<open>
  \<^verbatim>\<open>_flush\<close> itself emits every page the binding returns until the first return of 0 and
  then calls back without error.
\<close>

lemma EncoderStream__flush_drains:
  assumes "\<forall>p \<in> set ps. pr_rtn p \<noteq> 0" and "pr_rtn z = 0"
  shows "EncoderStream__flush (ps @ z # rest) =
           concat (map (\<lambda>p. [Call_ogg_stream_flush, Emit_page p]) ps) @
           [Call_ogg_stream_flush, Write_callback None]"
  using assms by (induction ps) simp_all

text \<open>
  C7 at the failing input. A flush request made through \<^verbatim>\<open>flush(callback)\<close> does nothing:
  no call of \<^verbatim>\<open>ogg_stream_flush\<close>, no page, no callback; whereas \<^verbatim>\<open>_write\<close> given the
  same command on a stream with nothing queued calls \<^verbatim>\<open>ogg_stream_flush\<close> once and calls
  back without error.
\<close>

theorem flush_request_dropped:
  "EncoderStream_flush = [] \<and>
   EncoderStream__write \<lparr>w_is_buffer = False, w_flush = True, w_pageout = False\<rparr> rtn
     [\<lparr>pr_rtn = 0, pr_hlen = 0, pr_blen = 0, pr_e_o_s = 0, pr_bytes = []\<rparr>] =
     [Call_ogg_stream_flush, Write_callback None]"
  by (simp add: EncoderStream_flush_def EncoderStream_write_def EncoderStream__write_def checkCommand_def)

section \<open>Results for the decoder\<close>

lemma onpacket_id: "ds_id (fst (onpacket st)) = ds_id st"
  by (simp add: onpacket_def split: list.splits prod.splits)

lemma DecoderStream__read_id: "ds_id (fst (DecoderStream__read st)) = ds_id st"
  by (simp add: DecoderStream__read_def onpacket_id)

lemma on_stream_plain:
  "\<not> list_ex is_throw (on_stream i as)"
  "filter (is_stream_event s) (on_stream i as) = []"
  "filter (is_forward s) (on_stream i as) = []"
  by (induction i as rule: on_stream.induct)
     (simp_all add: Decoder_afterPagein_def pageout_def split: option.splits)

lemma with_stream_plain:
  "\<not> list_ex is_throw (snd (with_stream d t f))"
  "filter (is_stream_event s) (snd (with_stream d t f)) = []"
  "filter (is_forward s) (snd (with_stream d t f)) = []"
  "(d_streams (fst (with_stream d t f)) s = None) = (d_streams d s = None)"
  by (simp_all add: with_stream_def on_stream_plain case_prod_beta Let_def split: option.splits)

lemma with_stream_persist:
  assumes "\<And>st. ds_id (fst (f st)) = ds_id st" and "d_streams d s = Some st"
  shows "\<exists>st1. d_streams (fst (with_stream d t f)) s = Some st1 \<and> ds_id st1 = ds_id st"
  using assms
  by (auto simp: with_stream_def case_prod_beta Let_def split: option.splits)

lemma afterPageout_old:
  "d_streams d s = Some st \<Longrightarrow>
   afterPageout d 1 s p r =
     (d, [Emit_page_decoder s p, Forward_page (ds_id st) s p,
          On_stream (ds_id st) (Call_ogg_stream_pagein p)])"
  by (simp add: afterPageout_def Decoder__stream_def DecoderStream_pagein_def)

lemma afterPageout_new:
  "d_streams d s = None \<Longrightarrow>
   afterPageout d 1 s p 0 =
     (d\<lparr>d_streams := (d_streams d)(s \<mapsto>
           \<lparr>ds_id = d_next_id d, ds_serialno = s, ds_packets = [], ds_once_packet = 0\<rparr>),
         d_next_id := Suc (d_next_id d)\<rparr>,
      [Emit_page_decoder s p, Emit_stream (d_next_id d) s, Forward_page (d_next_id d) s p,
       On_stream (d_next_id d) (Call_ogg_stream_pagein p)])"
  by (simp add: afterPageout_def Decoder__stream_def DecoderStream_pagein_def new_DecoderStream_def)

lemma afterPageout_throw:
  "d_streams d s = None \<Longrightarrow> r \<noteq> 0 \<Longrightarrow>
   afterPageout d 1 s p r = (d, [Emit_page_decoder s p, Throw (Ogg_stream_init_failed r)])"
  by (simp add: afterPageout_def Decoder__stream_def new_DecoderStream_def)

lemma afterPageout_none:
  "rtn \<noteq> 1 \<Longrightarrow>
   afterPageout d rtn s p r =
     (d, [Callback_write (if rtn = 0 then None else Some (Ogg_sync_pageout_error rtn))])"
  by (simp add: afterPageout_def)

lemma step_persist:
  assumes "d_streams d s = Some st"
  shows "\<exists>st1. d_streams (fst (decoder_step d ev)) s = Some st1 \<and> ds_id st1 = ds_id st"
proof (cases ev)
  case (Sync_write_done rtn)
  with assms show ?thesis by simp
next
  case (Sync_pageout_done rtn t p r)
  show ?thesis
  proof (cases "rtn = 1")
    case False
    with assms Sync_pageout_done show ?thesis by (simp add: afterPageout_none)
  next
    case True
    show ?thesis
    proof (cases "d_streams d t")
      case (Some st')
      with assms Sync_pageout_done True show ?thesis by (simp add: afterPageout_old)
    next
      case None
      then have "t \<noteq> s" using assms by auto
      with assms Sync_pageout_done True None show ?thesis
        by (cases "r = 0") (simp_all add: afterPageout_new afterPageout_throw)
    qed
  qed
next
  case (Stream_pagein_done t p r)
  with with_stream_persist [OF _ assms] show ?thesis by simp
next
  case (Stream_packetout_done t p res)
  with with_stream_persist [OF _ assms] show ?thesis by simp
next
  case (Stream_read t)
  with with_stream_persist [OF _ assms, of DecoderStream__read] show ?thesis
    by (simp add: DecoderStream__read_id)
next
  case (Tick_packet_read t p)
  with with_stream_persist [OF _ assms] show ?thesis by simp
qed

lemma step_not_arrival:
  assumes "\<not> is_page_arrival s ev"
  shows "filter (is_stream_event s) (snd (decoder_step d ev)) = [] \<and>
         filter (is_forward s) (snd (decoder_step d ev)) = [] \<and>
         (d_streams (fst (decoder_step d ev)) s = None) = (d_streams d s = None)"
proof (cases ev)
  case (Sync_write_done rtn)
  then show ?thesis by (simp add: afterWrite_def pageout_def)
next
  case (Sync_pageout_done rtn t p r)
  show ?thesis
  proof (cases "rtn = 1")
    case False
    with Sync_pageout_done show ?thesis by (simp add: afterPageout_none)
  next
    case True
    with assms Sync_pageout_done have ts: "t \<noteq> s" by simp
    show ?thesis
    proof (cases "d_streams d t")
      case (Some st')
      with Sync_pageout_done True ts show ?thesis by (simp add: afterPageout_old)
    next
      case None
      with Sync_pageout_done True ts show ?thesis
        by (cases "r = 0") (simp_all add: afterPageout_new afterPageout_throw)
    qed
  qed
qed (simp_all add: with_stream_plain)

lemma step_arrival_new:
  assumes "is_page_arrival s ev" and "d_streams d s = None"
    and "\<not> list_ex is_throw (snd (decoder_step d ev))"
  shows "\<exists>p rest st1. snd (decoder_step d ev) =
            [Emit_page_decoder s p, Emit_stream (d_next_id d) s, Forward_page (d_next_id d) s p] @ rest \<and>
          filter (is_stream_event s) rest = [] \<and> filter (is_forward s) rest = [] \<and>
          d_streams (fst (decoder_step d ev)) s = Some st1 \<and> ds_id st1 = d_next_id d"
proof (cases ev)
  case (Sync_pageout_done rtn t p r)
  with assms(1) have e: "rtn = 1" "t = s" by simp_all
  have "r = 0"
  proof (rule ccontr)
    assume "r \<noteq> 0"
    with assms(2,3) Sync_pageout_done e show False by (simp add: afterPageout_throw)
  qed
  with assms(2) Sync_pageout_done e show ?thesis by (simp add: afterPageout_new)
qed (use assms in simp_all)

lemma step_arrival_old:
  assumes "is_page_arrival s ev" and "d_streams d s = Some st"
  shows "\<exists>p rest. snd (decoder_step d ev) =
            [Emit_page_decoder s p, Forward_page (ds_id st) s p] @ rest \<and>
          filter (is_stream_event s) rest = [] \<and> filter (is_forward s) rest = [] \<and>
          \<not> list_ex is_throw (snd (decoder_step d ev)) \<and>
          fst (decoder_step d ev) = d"
proof (cases ev)
  case (Sync_pageout_done rtn t p r)
  with assms(1) have e: "rtn = 1" "t = s" by simp_all
  with assms(2) Sync_pageout_done show ?thesis by (simp add: afterPageout_old)
qed (use assms in simp_all)

lemma run_Cons:
  "decoder_run d (ev # evs) =
     (if list_ex is_throw (snd (decoder_step d ev)) then decoder_step d ev
      else (fst (decoder_run (fst (decoder_step d ev)) evs),
            snd (decoder_step d ev) @ snd (decoder_run (fst (decoder_step d ev)) evs)))"
  by (simp add: case_prod_beta)

lemma run_persist:
  "d_streams d s = Some st \<Longrightarrow>
   \<exists>st1. d_streams (fst (decoder_run d evs)) s = Some st1 \<and> ds_id st1 = ds_id st"
proof (induction evs arbitrary: d st)
  case Nil
  then show ?case by simp
next
  case (Cons ev evs)
  from step_persist [OF Cons.prems, of ev] obtain st1 where
    s1: "d_streams (fst (decoder_step d ev)) s = Some st1" and i1: "ds_id st1 = ds_id st" by blast
  from Cons.IH [OF s1] i1 s1 show ?case
    by (auto simp: run_Cons simp del: decoder_run.simps)
qed


lemma run_stream_events:
  "\<not> list_ex is_throw (snd (decoder_run d evs)) \<Longrightarrow>
   length (filter (is_stream_event s) (snd (decoder_run d evs))) =
     (if d_streams d s = None \<and> list_ex (is_page_arrival s) evs then 1 else 0)"
proof (induction evs arbitrary: d)
  case Nil
  then show ?case by simp
next
  case (Cons ev evs)
  let ?d1 = "fst (decoder_step d ev)" and ?as1 = "snd (decoder_step d ev)"
  from Cons.prems have nt1: "\<not> list_ex is_throw ?as1"
    by (simp add: run_Cons del: decoder_run.simps split: if_splits)
  with Cons.prems have nt2: "\<not> list_ex is_throw (snd (decoder_run ?d1 evs))"
    by (simp add: run_Cons del: decoder_run.simps)
  note IH = Cons.IH [OF nt2]
  have tr: "snd (decoder_run d (ev # evs)) = ?as1 @ snd (decoder_run ?d1 evs)"
    using nt1 by (simp add: run_Cons del: decoder_run.simps)
  show ?case
  proof (cases "is_page_arrival s ev")
    case False
    from step_not_arrival [OF False, of d] IH False show ?thesis
      by (simp add: tr del: decoder_run.simps)
  next
    case True
    show ?thesis
    proof (cases "d_streams d s")
      case None
      from step_arrival_new [OF True None nt1] IH True None show ?thesis
        by (auto simp: tr simp del: decoder_run.simps)
    next
      case (Some st)
      from step_arrival_old [OF True Some] IH True Some show ?thesis
        by (auto simp: tr simp del: decoder_run.simps)
    qed
  qed
qed

lemma run_forwards:
  "\<not> list_ex is_throw (snd (decoder_run d evs)) \<Longrightarrow>
   length (filter (is_forward s) (snd (decoder_run d evs))) =
     length (filter (is_page_arrival s) evs)"
proof (induction evs arbitrary: d)
  case Nil
  then show ?case by simp
next
  case (Cons ev evs)
  let ?d1 = "fst (decoder_step d ev)" and ?as1 = "snd (decoder_step d ev)"
  from Cons.prems have nt1: "\<not> list_ex is_throw ?as1"
    by (simp add: run_Cons del: decoder_run.simps split: if_splits)
  with Cons.prems have nt2: "\<not> list_ex is_throw (snd (decoder_run ?d1 evs))"
    by (simp add: run_Cons del: decoder_run.simps)
  note IH = Cons.IH [OF nt2]
  have tr: "snd (decoder_run d (ev # evs)) = ?as1 @ snd (decoder_run ?d1 evs)"
    using nt1 by (simp add: run_Cons del: decoder_run.simps)
  show ?case
  proof (cases "is_page_arrival s ev")
    case False
    from step_not_arrival [OF False, of d] IH False show ?thesis
      by (simp add: tr del: decoder_run.simps)
  next
    case True
    show ?thesis
    proof (cases "d_streams d s")
      case None
      from step_arrival_new [OF True None nt1] IH True show ?thesis
        by (auto simp: tr simp del: decoder_run.simps)
    next
      case (Some st)
      from step_arrival_old [OF True Some] IH True show ?thesis
        by (auto simp: tr simp del: decoder_run.simps)
    qed
  qed
qed

lemma filter_empty_notin: "filter P xs = [] \<Longrightarrow> x \<in> set xs \<Longrightarrow> \<not> P x"
  by (induction xs) (auto split: if_splits)

lemma step_routed:
  assumes "Forward_page i s p \<in> set (snd (decoder_step d ev)) \<or>
           Emit_stream i s \<in> set (snd (decoder_step d ev))"
    and "\<not> list_ex is_throw (snd (decoder_step d ev))"
  shows "\<exists>st1. d_streams (fst (decoder_step d ev)) s = Some st1 \<and> ds_id st1 = i"
proof (cases "is_page_arrival s ev")
  case False
  from step_not_arrival [OF False, of d] assms(1) show ?thesis
    by (auto dest: filter_empty_notin)
next
  case True
  show ?thesis
  proof (cases "d_streams d s")
    case None
    from step_arrival_new [OF True None assms(2)] assms(1) show ?thesis
      by (auto dest: filter_empty_notin)
  next
    case (Some st)
    from step_arrival_old [OF True Some] assms(1) Some show ?thesis
      by (auto dest: filter_empty_notin)
  qed
qed

lemma run_routed:
  "\<not> list_ex is_throw (snd (decoder_run d evs)) \<Longrightarrow>
   Forward_page i s p \<in> set (snd (decoder_run d evs)) \<or>
   Emit_stream i s \<in> set (snd (decoder_run d evs)) \<Longrightarrow>
   \<exists>st1. d_streams (fst (decoder_run d evs)) s = Some st1 \<and> ds_id st1 = i"
proof (induction evs arbitrary: d)
  case Nil
  then show ?case by simp
next
  case (Cons ev evs)
  let ?d1 = "fst (decoder_step d ev)" and ?as1 = "snd (decoder_step d ev)"
  from Cons.prems(1) have nt1: "\<not> list_ex is_throw ?as1"
    by (simp add: run_Cons del: decoder_run.simps split: if_splits)
  with Cons.prems(1) have nt2: "\<not> list_ex is_throw (snd (decoder_run ?d1 evs))"
    by (simp add: run_Cons del: decoder_run.simps)
  have tr: "snd (decoder_run d (ev # evs)) = ?as1 @ snd (decoder_run ?d1 evs)"
    and st: "fst (decoder_run d (ev # evs)) = fst (decoder_run ?d1 evs)"
    using nt1 by (simp_all add: run_Cons del: decoder_run.simps)
  from Cons.prems(2) tr
  consider (now) "Forward_page i s p \<in> set ?as1 \<or> Emit_stream i s \<in> set ?as1"
    | (later) "Forward_page i s p \<in> set (snd (decoder_run ?d1 evs)) \<or>
               Emit_stream i s \<in> set (snd (decoder_run ?d1 evs))"
    by auto
  then show ?case
  proof cases
    case now
    from step_routed [OF now nt1] obtain st1 where
      "d_streams ?d1 s = Some st1" and "ds_id st1 = i" by blast
    with run_persist [of ?d1 s st1 evs] show ?thesis by (simp add: st del: decoder_run.simps)
  next
    case later
    from Cons.IH [OF nt2 later] show ?thesis by (simp add: st del: decoder_run.simps)
  qed
qed

lemma takeWhile_append_all: "\<forall>x \<in> set xs. P x \<Longrightarrow> takeWhile P (xs @ ys) = xs @ takeWhile P ys"
  by (induction xs) simp_all

lemma filter_empty_all: "filter P xs = [] \<Longrightarrow> \<forall>x \<in> set xs. \<not> P x"
  by (induction xs) (auto split: if_splits)

lemma filter_takeWhile_empty: "filter P xs = [] \<Longrightarrow> filter P (takeWhile Q xs) = []"
  by (induction xs) (auto split: if_splits)

lemma run_event_first:
  "d_streams d s = None \<Longrightarrow>
   filter (is_forward s) (takeWhile (\<lambda>a. \<not> is_stream_event s a) (snd (decoder_run d evs))) = []"
proof (induction evs arbitrary: d)
  case Nil
  then show ?case by simp
next
  case (Cons ev evs)
  let ?d1 = "fst (decoder_step d ev)" and ?as1 = "snd (decoder_step d ev)"
  show ?case
  proof (cases "is_page_arrival s ev")
    case False
    from step_not_arrival [OF False, of d] Cons.prems
    have f: "filter (is_stream_event s) ?as1 = []" and g: "filter (is_forward s) ?as1 = []"
      and n: "d_streams ?d1 s = None" by simp_all
    from filter_empty_all [OF f] have a: "\<forall>x \<in> set ?as1. \<not> is_stream_event s x" .
    show ?thesis
    proof (cases "list_ex is_throw ?as1")
      case True
      with filter_takeWhile_empty [OF g] show ?thesis
        by (simp add: run_Cons del: decoder_run.simps)
    next
      case False
      with a g Cons.IH [OF n] show ?thesis
        by (simp add: run_Cons takeWhile_append_all del: decoder_run.simps)
    qed
  next
    case True
    show ?thesis
    proof (cases "list_ex is_throw ?as1")
      case False
      from step_arrival_new [OF True Cons.prems False] False show ?thesis
        by (auto simp: run_Cons simp del: decoder_run.simps)
    next
      case thrown: True
      from True obtain rtn p r where ev: "ev = Sync_pageout_done rtn s p r" and "rtn = 1"
        by (cases ev) auto
      with Cons.prems thrown have "r \<noteq> 0"
        by (auto simp: afterPageout_new)
      with ev \<open>rtn = 1\<close> Cons.prems thrown show ?thesis
        by (simp add: run_Cons afterPageout_throw del: decoder_run.simps)
    qed
  qed
qed

lemmas decoder_defs =
  afterPageout_def Decoder__stream_def new_DecoderStream_def DecoderStream_pagein_def
  with_stream_def DecoderStream_afterPagein_def packetout_def afterPacketout_def
  onpacket_def DecoderStream__read_def afterPacketRead_def truthy_def
  Decoder_afterPagein_def pageout_def afterWrite_def Let_def eos_packetout_def
  gap_packetout_def

text \<open>
  C1. Along any sequence of callbacks on a new decoder in which no constructor of a
  stream throws, and for every serial number: the \<^verbatim>\<open>'stream'\<close> event is emitted once if a page with that serial
  number arrived and never otherwise; every such page is forwarded; no page is
  forwarded before the event; and every forwarded page and the event name the one
  stream object the table holds for the serial number.
\<close>

theorem page_routed_by_serialno:
  assumes "new_Decoder r0 = Inr d0"
    and "decoder_run d0 evs = (d, tr)" and "\<not> list_ex is_throw tr"
  shows "length (filter (is_stream_event s) tr) = (if list_ex (is_page_arrival s) evs then 1 else 0) \<and>
         length (filter (is_forward s) tr) = length (filter (is_page_arrival s) evs) \<and>
         filter (is_forward s) (takeWhile (\<lambda>a. \<not> is_stream_event s a) tr) = [] \<and>
         (\<forall>i p. Forward_page i s p \<in> set tr \<or> Emit_stream i s \<in> set tr \<longrightarrow>
            (\<exists>st. d_streams d s = Some st \<and> ds_id st = i))"
proof -
  have d: "d = fst (decoder_run d0 evs)" and tr: "tr = snd (decoder_run d0 evs)"
    using assms(2) by simp_all
  have n: "d_streams d0 s = None"
    using assms(1) by (auto simp: new_Decoder_def split: if_splits)
  from assms(3) have nt: "\<not> list_ex is_throw (snd (decoder_run d0 evs))" by (simp add: tr)
  from run_stream_events [OF nt, of s] n
  have 1: "length (filter (is_stream_event s) tr) = (if list_ex (is_page_arrival s) evs then 1 else 0)"
    by (simp add: tr)
  from run_forwards [OF nt, of s]
  have 2: "length (filter (is_forward s) tr) = length (filter (is_page_arrival s) evs)"
    by (simp add: tr)
  from run_event_first [OF n, of evs]
  have 3: "filter (is_forward s) (takeWhile (\<lambda>a. \<not> is_stream_event s a) tr) = []"
    by (simp add: tr)
  have 4: "\<forall>i p. Forward_page i s p \<in> set tr \<or> Emit_stream i s \<in> set tr \<longrightarrow>
            (\<exists>st. d_streams d s = Some st \<and> ds_id st = i)"
    using run_routed [OF nt] by (simp add: d tr)
  from 1 2 3 4 show ?thesis by blast
qed

lemma two_pages_run:
  "decoder_run \<lparr>d_streams = Map.empty, d_next_id = 0\<rparr>
     [Sync_pageout_done 1 7 1 0, Sync_pageout_done 1 7 2 0] =
   (\<lparr>d_streams = [7 \<mapsto> \<lparr>ds_id = 0, ds_serialno = 7, ds_packets = [], ds_once_packet = 0\<rparr>],
     d_next_id = 1\<rparr>,
    [Emit_page_decoder 7 1, Emit_stream 0 7, Forward_page 0 7 1,
     On_stream 0 (Call_ogg_stream_pagein 1),
     Emit_page_decoder 7 2, Forward_page 0 7 2,
     On_stream 0 (Call_ogg_stream_pagein 2)])"
  by (simp add: decoder_defs)

theorem page_routed_by_serialno_witness:
  "new_Decoder 0 = Inr \<lparr>d_streams = Map.empty, d_next_id = 0\<rparr> \<and>
   decoder_run \<lparr>d_streams = Map.empty, d_next_id = 0\<rparr>
     [Sync_pageout_done 1 7 1 0, Sync_pageout_done 1 7 2 0] =
   (\<lparr>d_streams = [7 \<mapsto> \<lparr>ds_id = 0, ds_serialno = 7, ds_packets = [], ds_once_packet = 0\<rparr>],
     d_next_id = 1\<rparr>,
    [Emit_page_decoder 7 1, Emit_stream 0 7, Forward_page 0 7 1,
     On_stream 0 (Call_ogg_stream_pagein 1),
     Emit_page_decoder 7 2, Forward_page 0 7 2,
     On_stream 0 (Call_ogg_stream_pagein 2)]) \<and>
   length (filter (is_stream_event 7)
    [Emit_page_decoder 7 1, Emit_stream 0 7, Forward_page 0 7 1,
     On_stream 0 (Call_ogg_stream_pagein 1),
     Emit_page_decoder 7 2, Forward_page 0 7 2,
     On_stream 0 (Call_ogg_stream_pagein 2)]) = 1 \<and>
   length (filter (is_forward 7)
    [Emit_page_decoder 7 1, Emit_stream 0 7, Forward_page 0 7 1,
     On_stream 0 (Call_ogg_stream_pagein 1),
     Emit_page_decoder 7 2, Forward_page 0 7 2,
     On_stream 0 (Call_ogg_stream_pagein 2)]) = 2"
proof -
  have n: "new_Decoder 0 = Inr \<lparr>d_streams = Map.empty, d_next_id = 0\<rparr>"
    by (simp add: new_Decoder_def)
  have t: "\<not> list_ex is_throw
    [Emit_page_decoder 7 1, Emit_stream 0 7, Forward_page 0 7 1,
     On_stream 0 (Call_ogg_stream_pagein 1),
     Emit_page_decoder 7 2, Forward_page 0 7 2,
     On_stream 0 (Call_ogg_stream_pagein 2)]"
    by simp
  from page_routed_by_serialno [OF n two_pages_run t, of 7] n two_pages_run
  show ?thesis by simp
qed




text \<open>
  C5, as amended. The sources never read a page sequence number. When
  \<^verbatim>\<open>ogg_stream_packetout\<close> returns \<open>-1\<close> (the sync warning of the native library), the
  stream emits nothing and calls no callback: it asks for the next packet with the same
  count of packets left, and the decoder is as it was.
\<close>

theorem gap_is_retried_silently:
  assumes "po_rtn res = - 1"
  shows "afterPacketout packets res = packetout packets \<and>
         (packets \<noteq> 0 \<longrightarrow> afterPacketout packets res = [Call_ogg_stream_packetout packets]) \<and>
         (d_streams d s = Some st \<longrightarrow>
            decoder_step d (Stream_packetout_done s packets res) =
              (d, on_stream (ds_id st) (packetout packets)))"
  using assms by (simp add: afterPacketout_def packetout_def with_stream_def map_upd_triv)

theorem gap_is_retried_silently_witness:
  "po_rtn gap_packetout = - 1 \<and> (1::int) \<noteq> 0 \<and>
   d_streams \<lparr>d_streams = [7 \<mapsto> \<lparr>ds_id = 0, ds_serialno = 7, ds_packets = [], ds_once_packet = 0\<rparr>],
              d_next_id = 1\<rparr> 7 =
     Some \<lparr>ds_id = 0, ds_serialno = 7, ds_packets = [], ds_once_packet = 0\<rparr> \<and>
   afterPacketout 1 gap_packetout = [Call_ogg_stream_packetout 1] \<and>
   decoder_step \<lparr>d_streams = [7 \<mapsto> \<lparr>ds_id = 0, ds_serialno = 7, ds_packets = [], ds_once_packet = 0\<rparr>],
              d_next_id = 1\<rparr>
       (Stream_packetout_done 7 1 gap_packetout) =
     (\<lparr>d_streams = [7 \<mapsto> \<lparr>ds_id = 0, ds_serialno = 7, ds_packets = [], ds_once_packet = 0\<rparr>],
              d_next_id = 1\<rparr>,
      [On_stream 0 (Call_ogg_stream_packetout 1)])"
proof -
  have h: "po_rtn gap_packetout = - 1" by (simp add: gap_packetout_def)
  from gap_is_retried_silently [OF h,
      of 1
         "\<lparr>d_streams = [7 \<mapsto> \<lparr>ds_id = 0, ds_serialno = 7, ds_packets = [], ds_once_packet = 0\<rparr>],
              d_next_id = 1\<rparr>" 7
         "\<lparr>ds_id = 0, ds_serialno = 7, ds_packets = [], ds_once_packet = 0\<rparr>"] h
  show ?thesis by (simp add: packetout_def with_stream_def)
qed

text \<open>
  C5 as stated fails: in this run the callback of \<^verbatim>\<open>ogg_stream_packetout\<close> reports a gap;
  all that follows it is the next call of \<^verbatim>\<open>ogg_stream_packetout\<close>, and nothing in the
  trace tells the caller.
\<close>

theorem gap_not_reported_counterexample:
  "decoder_run \<lparr>d_streams = Map.empty, d_next_id = 0\<rparr>
     [Sync_write_done 0, Sync_pageout_done 1 7 1 0, Stream_pagein_done 7 1 0,
      Stream_packetout_done 7 1 gap_packetout] =
   (\<lparr>d_streams = [7 \<mapsto> \<lparr>ds_id = 0, ds_serialno = 7, ds_packets = [], ds_once_packet = 0\<rparr>],
     d_next_id = 1\<rparr>,
    [Call_ogg_sync_pageout,
     Emit_page_decoder 7 1, Emit_stream 0 7, Forward_page 0 7 1,
     On_stream 0 (Call_ogg_stream_pagein 1), On_stream 0 Ds_emit_page,
     On_stream 0 (Call_ogg_stream_packetout 1),
     On_stream 0 (Call_ogg_stream_packetout 1)])"
  by (simp add: decoder_defs)




section \<open>Results for the page codec of the specification\<close>

lemma le_bytes_numeral:
  "le_bytes (numeral n) w = ucast w # le_bytes (pred_numeral n) (drop_bit 8 w)"
proof -
  have "numeral n = Suc (pred_numeral n)" by (rule numeral_eq_Suc)
  then show ?thesis by (simp only: le_bytes.simps)
qed

lemma crc_shift_numeral:
  "crc_shift (numeral n) r =
     crc_shift (pred_numeral n) (if bit r 31 then push_bit 1 r XOR crc_poly else push_bit 1 r)"
proof -
  have "numeral n = Suc (pred_numeral n)" by (rule numeral_eq_Suc)
  then show ?thesis by (simp only: crc_shift.simps)
qed


lemma sample_layout:
  "page_layout sample_page 0 =
     [79, 103, 103, 83, 0, 2, 0, 0, 0, 0, 0, 0, 0, 0, 1, 2, 3, 4, 0, 0, 0, 0, 0, 0, 0, 0, 1, 1, 65]"
  by (simp add: page_layout_def sample_page_def capture_pattern_def le_bytes_numeral)


lemma crc_update_Nil: "crc_update a [] = a"
  by (simp add: crc_update_def)

lemma crc_update_Cons:
  "crc_update a (b # bs) =
     crc_update (push_bit 8 a XOR crc_table (ucast (drop_bit 24 a) XOR b)) bs"
  by (simp add: crc_update_def)

lemma crc_table_numeral:
  "crc_table (numeral n) = crc_shift 8 (push_bit 24 (ucast (numeral n :: byte)))"
  "crc_table 0 = crc_shift 8 (push_bit 24 (ucast (0 :: byte)))"
  "crc_table 1 = crc_shift 8 (push_bit 24 (ucast (1 :: byte)))"
  by (simp_all only: crc_table_def)

lemmas crc_eval =
  crc_def crc_update_Nil crc_update_Cons crc_table_numeral crc_shift_numeral crc_poly_def

lemma sample_crc: "crc (page_layout sample_page 0) = 2473842793"
  unfolding sample_layout by (simp add: crc_eval)

lemma length_le_bytes [simp]: "length (le_bytes n w) = n"
  by (induction n arbitrary: w) simp_all

lemma le_word_le_bytes: "(le_word (le_bytes n w) :: 'a::len word) = take_bit (8 * n) (w :: 'a word)"
proof (induction n arbitrary: w)
  case 0
  then show ?case by simp
next
  case (Suc n)
  show ?case
    apply (simp add: Suc)
    apply (rule bit_word_eqI)
    apply (auto simp add: bit_simps)
    done
qed

lemma le_word_le_bytes_32: "le_word (le_bytes 4 w) = (w :: 32 word)"
  by (simp add: le_word_le_bytes take_bit_word_eq_self)

lemma le_word_le_bytes_64: "le_word (le_bytes 8 w) = (w :: 64 word)"
  by (simp add: le_word_le_bytes take_bit_word_eq_self)

lemma layout_length:
  "length (page_layout p c) = 27 + length (segment_table p) + length (body p)"
  by (simp add: page_layout_def capture_pattern_def)

lemma layout_fields:
  "take 4 (page_layout p c) = capture_pattern"
  "page_layout p c ! 4 = 0"
  "page_layout p c ! 5 = header_type p"
  "take 8 (drop 6 (page_layout p c)) = le_bytes 8 (granule_position p)"
  "take 4 (drop 14 (page_layout p c)) = le_bytes 4 (serial_number p)"
  "take 4 (drop 18 (page_layout p c)) = le_bytes 4 (page_sequence_number p)"
  "take 4 (drop 22 (page_layout p c)) = le_bytes 4 c"
  "page_layout p c ! 26 = of_nat (length (segment_table p))"
  "drop 27 (page_layout p c) = segment_table p @ body p"
  by (simp_all add: page_layout_def capture_pattern_def nth_append)

lemma layout_body:
  "drop (27 + length (segment_table p)) (page_layout p c) = body p"
proof -
  have "drop (27 + length (segment_table p)) (page_layout p c) =
        drop (length (segment_table p)) (drop 27 (page_layout p c))"
    by (simp add: add.commute)
  then show ?thesis by (simp add: layout_fields)
qed

lemma unat_count:
  "n \<le> 255 \<Longrightarrow> unat (of_nat n :: byte) = n"
  by (simp add: unat_of_nat)

lemma parse_serialize:
  assumes "structurally_valid p"
  shows "parse (serialize p) 0 =
           Parsed (p\<lparr>checksum := crc (page_layout p 0)\<rparr>)
                  (27 + length (segment_table p) + length (body p))"
proof -
  let ?c = "crc (page_layout p 0)"
  from assms have n: "unat (of_nat (length (segment_table p)) :: byte) = length (segment_table p)"
    and b: "sum_list (map unat (segment_table p)) = length (body p)"
    by (simp_all add: structurally_valid_def unat_count)
  have q: "\<lparr>header_type = header_type p, granule_position = granule_position p,
            serial_number = serial_number p, page_sequence_number = page_sequence_number p,
            checksum = ?c, segment_table = segment_table p, body = body p\<rparr> =
           p\<lparr>checksum := ?c\<rparr>"
    by simp
  have z: "page_layout (p\<lparr>checksum := ?c\<rparr>) 0 = page_layout p 0"
    by (simp add: page_layout_def)
  show ?thesis
    unfolding serialize_def parse_def
    by (simp add: Let_def layout_fields layout_length n b le_word_le_bytes_32
          le_word_le_bytes_64 q z layout_body)
qed

lemma sample_valid: "structurally_valid sample_page"
  by (simp add: structurally_valid_def sample_page_def)

text \<open>
  C2, as amended. For every structurally valid page, parsing its serialization consumes
  all of it and yields the page with the recomputed CRC in the checksum field; it yields
  the page itself when the page's checksum field already holds that CRC.
\<close>

theorem parse_serialize_checksum:
  assumes "structurally_valid p"
  shows "parse (serialize p) 0 =
           Parsed (p\<lparr>checksum := crc (page_layout p 0)\<rparr>) (length (serialize p)) \<and>
         (checksum p = crc (page_layout p 0) \<longrightarrow>
            parse (serialize p) 0 = Parsed p (length (serialize p)))"
proof -
  have "checksum p = crc (page_layout p 0) \<Longrightarrow> p\<lparr>checksum := crc (page_layout p 0)\<rparr> = p"
    by simp
  with parse_serialize [OF assms] show ?thesis
    by (auto simp: serialize_def layout_length)
qed

theorem parse_serialize_checksum_witness:
  "structurally_valid (sample_page\<lparr>checksum := 2473842793\<rparr>) \<and>
   checksum (sample_page\<lparr>checksum := 2473842793\<rparr>) =
     crc (page_layout (sample_page\<lparr>checksum := 2473842793\<rparr>) 0) \<and>
   parse (serialize (sample_page\<lparr>checksum := 2473842793\<rparr>)) 0 =
     Parsed (sample_page\<lparr>checksum := 2473842793\<rparr>) 29"
proof -
  have v: "structurally_valid (sample_page\<lparr>checksum := 2473842793\<rparr>)"
    by (simp add: structurally_valid_def sample_page_def)
  have l: "page_layout (sample_page\<lparr>checksum := 2473842793\<rparr>) 0 = page_layout sample_page 0"
    by (simp add: page_layout_def)
  have c: "checksum (sample_page\<lparr>checksum := 2473842793\<rparr>) =
     crc (page_layout (sample_page\<lparr>checksum := 2473842793\<rparr>) 0)"
    by (simp only: l sample_crc) simp
  have n: "length (serialize (sample_page\<lparr>checksum := 2473842793\<rparr>)) = 29"
    by (simp add: serialize_def layout_length sample_page_def)
  from parse_serialize_checksum [OF v] c have
    "parse (serialize (sample_page\<lparr>checksum := 2473842793\<rparr>)) 0 =
       Parsed (sample_page\<lparr>checksum := 2473842793\<rparr>)
         (length (serialize (sample_page\<lparr>checksum := 2473842793\<rparr>)))"
    by blast
  with v c n show ?thesis by simp
qed

text \<open>
  C2 as stated fails: the sample page is structurally valid and its checksum field is 0;
  parsing its serialization yields the page with checksum 2473842793, which is another
  page.
\<close>

theorem stale_checksum_counterexample:
  "structurally_valid sample_page \<and>
   parse (serialize sample_page) 0 = Parsed (sample_page\<lparr>checksum := 2473842793\<rparr>) 29 \<and>
   sample_page\<lparr>checksum := 2473842793\<rparr> \<noteq> sample_page"
proof -
  have n: "27 + length (segment_table sample_page) + length (body sample_page) = 29"
    by (simp add: sample_page_def)
  have d: "sample_page\<lparr>checksum := 2473842793\<rparr> \<noteq> sample_page"
    by (simp add: sample_page_def)
  from parse_serialize [OF sample_valid]
  have "parse (serialize sample_page) 0 = Parsed (sample_page\<lparr>checksum := 2473842793\<rparr>) 29"
    by (simp only: n sample_crc)
  with d sample_valid show ?thesis by blast
qed

end
